theory Spec2Isabelle
  imports Complex_Main "HOL-Library.Multiset"
begin

section \<open>JavaScript values and library functions used by the front end\<close>

text \<open>
  Strings are byte lists: a string literal of the source that is not ASCII is written
  as its UTF-8 bytes. Task and stage identifiers are ASCII, and for ASCII text the
  code units that JavaScript counts are these bytes. A JavaScript \<open>number\<close> that is
  only ever an integer in the code is an \<open>int\<close> or a \<open>nat\<close>; one that carries a
  fraction (a percentage, a duration) is a \<open>rat\<close>, the value of the double.
\<close>

text \<open>\<open>String.prototype.startsWith(p)\<close>.\<close>

definition startsWith :: "string \<Rightarrow> string \<Rightarrow> bool" where
  "startsWith s p = (take (length p) s = p)"

text \<open>\<open>Number.prototype.toString()\<close> on a natural number: its decimal digits.\<close>

fun toString :: "nat \<Rightarrow> string" where
  "toString n =
     (if n < 10 then [''0123456789'' ! n]
      else toString (n div 10) @ [''0123456789'' ! (n mod 10)])"

declare toString.simps [simp del]

text \<open>\<open>s.padStart(2, '0')\<close>.\<close>

definition padStart2 :: "string \<Rightarrow> string" where
  "padStart2 s = replicate (2 - length s) (CHR ''0'') @ s"

text \<open>\<open>s.slice(0, n)\<close> for a natural number \<open>n\<close>.\<close>

definition slice0 :: "string \<Rightarrow> nat \<Rightarrow> string" where
  "slice0 s n = take n s"

text \<open>
  \<open>Array.prototype.findIndex\<close>: the index of the first element that satisfies the
  predicate, \<open>-1\<close> when there is none.
\<close>

fun findIndex :: "('a \<Rightarrow> bool) \<Rightarrow> 'a list \<Rightarrow> int" where
  "findIndex p [] = -1"
| "findIndex p (x # xs) =
     (if p x then 0
      else (let i = findIndex p xs in if i < 0 then -1 else i + 1))"

subsection \<open>Arithmetic on doubles\<close>

text \<open>
  A number with a fraction is an IEEE 754 double. The model holds the value of a
  double as a rational, and an arithmetic operation of the source is the exact
  operation followed by the rounding of its result to a double. The functions that
  compute take this rounding as their parameter \<open>rd\<close>. The rounding itself is
  \<open>binary64\<close>: the multiple of the quantum of the value that is nearest to it, a tie
  going to the even multiple. The quantum of a value from 1 up to 2 is \<open>2^-52\<close>; it
  doubles with each power of two above, up to \<open>2^971\<close>, and halves with each one
  below, down to \<open>2^-1074\<close>, the step of the subnormal numbers. Beyond the largest
  double JavaScript gives \<open>Infinity\<close>, where the model keeps the largest quantum.
\<close>

definition roundTiesToEven :: "rat \<Rightarrow> int" where
  "roundTiesToEven x =
     (let f = \<lfloor>x\<rfloor> in
      if x - of_int f < 1 / 2 then f
      else if 1 / 2 < x - of_int f then f + 1
      else if even f then f else f + 1)"

fun quantumUp :: "nat \<Rightarrow> rat \<Rightarrow> rat \<Rightarrow> rat" where
  "quantumUp 0 q x = q"
| "quantumUp (Suc n) q x = (if x < 2 ^ 53 * q then q else quantumUp n (2 * q) x)"

fun quantumDown :: "nat \<Rightarrow> rat \<Rightarrow> rat \<Rightarrow> rat" where
  "quantumDown 0 q x = q"
| "quantumDown (Suc n) q x = (if 2 ^ 52 * q \<le> x then q else quantumDown n (q / 2) x)"

definition quantum :: "rat \<Rightarrow> rat" where
  "quantum x =
     (if 1 \<le> x then quantumUp 1023 (1 / 2 ^ 52) x else quantumDown 1022 (1 / 2 ^ 52) x)"

definition binary64 :: "rat \<Rightarrow> rat" where
  "binary64 x =
     (if x < 0 then - (quantum (- x) * of_int (roundTiesToEven (- x / quantum (- x))))
      else quantum x * of_int (roundTiesToEven (x / quantum x)))"

text \<open>\<open>Math.round\<close>: the nearest integer, a tie going towards plus infinity.\<close>

definition Math_round :: "rat \<Rightarrow> int" where
  "Math_round x = \<lfloor>x + 1 / 2\<rfloor>"

subsection \<open>\<open>parseInt\<close> with no radix argument\<close>

text \<open>
  \<open>parseInt(s)\<close> skips leading white space, reads an optional sign, an optional
  \<open>0x\<close> or \<open>0X\<close> prefix (which selects radix 16) and then the longest run of digits
  of the radix. With no digit the result is \<open>NaN\<close>, here \<open>None\<close>. The white space
  of the model is the ASCII white space, and the integer read is exact (JavaScript
  rounds it to a double beyond \<open>2^53\<close>).
\<close>

definition isWhiteSpace :: "char \<Rightarrow> bool" where
  "isWhiteSpace c = (c \<in> set [CHR 0x09, CHR 0x0A, CHR 0x0B, CHR 0x0C, CHR 0x0D, CHR 0x20])"

fun digitValue :: "char \<Rightarrow> nat option" where
  "digitValue c =
     (let n = of_char c :: nat in
      if 48 \<le> n \<and> n \<le> 57 then Some (n - 48)
      else if 97 \<le> n \<and> n \<le> 102 then Some (n - 87)
      else if 65 \<le> n \<and> n \<le> 70 then Some (n - 55)
      else None)"

definition isDigit :: "nat \<Rightarrow> char \<Rightarrow> bool" where
  "isDigit R c = (case digitValue c of None \<Rightarrow> False | Some d \<Rightarrow> d < R)"

text \<open>The value of a run of digits in radix \<open>R\<close>, most significant digit first.\<close>

fun digitsValue :: "nat \<Rightarrow> nat \<Rightarrow> string \<Rightarrow> nat" where
  "digitsValue R acc [] = acc"
| "digitsValue R acc (c # cs) =
     digitsValue R (acc * R + (case digitValue c of None \<Rightarrow> 0 | Some d \<Rightarrow> d)) cs"

definition parseInt :: "string \<Rightarrow> int option" where
  "parseInt inputString =
     (let S = dropWhile isWhiteSpace inputString;
          sign = (if S \<noteq> [] \<and> hd S = CHR ''-'' then -1 else 1 :: int);
          S1 = (if S \<noteq> [] \<and> (hd S = CHR ''+'' \<or> hd S = CHR ''-'') then tl S else S);
          hex = (take 2 S1 = ''0x'' \<or> take 2 S1 = ''0X'');
          S2 = (if hex then drop 2 S1 else S1);
          R = (if hex then 16 else 10);
          Z = takeWhile (isDigit R) S2
      in if Z = [] then None else Some (sign * int (digitsValue R 0 Z)))"

section \<open>Data model (\<open>types.ts\<close>, \<open>api.ts\<close>)\<close>

text \<open>
  Field names carry a prefix where two interfaces of the source share a name. A
  \<open>File\<close> is the browser's file object, with the attributes the code reads.
\<close>

record File =
  file_name :: string
  file_size :: nat
  file_type :: string

record VideoItem =
  video_id :: string
  video_file :: File
  video_name :: string
  video_size :: nat
  thumbnailUrl :: string
  previewUrl :: string
  duration :: "rat option"

record AudioFile =
  audio_id :: string
  audio_file :: File
  audio_name :: string
  audio_size :: nat

record SubtitleFile =
  subtitle_id :: string
  subtitle_file :: File
  subtitle_name :: string
  subtitle_size :: nat

record ProjectSettings =
  beatSensitivity :: rat
  whisperModel :: string
  language :: string
  beatsPerCut :: int
  totalDuration :: rat
  videoWidth :: int
  videoHeight :: int
  fps :: int
  tempPath :: string
  outputPath :: string

datatype StageStatus = StagePending | StageRunning | StageCompleted

record ProcessStage =
  stage_id :: string
  label :: string
  progress :: rat
  status :: StageStatus

datatype LogType = LogInfo | LogSuccess | LogWarning | LogError

record LogEntry =
  timestamp :: string
  log_message :: string
  log_type :: LogType

datatype ProcessStatus = Idle | Processing | Completed | Error

record UploadResult =
  video_paths :: "string list"
  audio_path :: "string option"
  srt_path :: "string option"

record GenerateConfig =
  cfg_video_paths :: "string list"
  cfg_audio_path :: "string option"
  cfg_srt_path :: "string option"
  cfg_whisper_model :: string
  cfg_language :: string
  cfg_beat_sensitivity :: rat
  cfg_beats_per_cut :: int
  cfg_total_duration :: rat
  cfg_video_width :: int
  cfg_video_height :: int
  cfg_fps :: int
  cfg_temp_path :: string
  cfg_output_path :: string

record ProgressEvent =
  stage :: string
  message :: string
  percent :: rat

section \<open>The API client (\<open>api.ts\<close>)\<close>

definition API_BASE :: string where
  "API_BASE = ''http://localhost:8000''"

definition getDownloadUrl :: "string \<Rightarrow> string" where
  "getDownloadUrl taskId = API_BASE @ ''/api/download/'' @ taskId"

subsection \<open>\<open>subscribeProgress\<close>\<close>

text \<open>
  The browser's \<open>EventSource\<close>: the address it reads and whether \<open>close()\<close> has been
  called on it. A closed source dispatches no further event.
\<close>

record EventSource =
  url :: string
  closed :: bool

definition close :: "EventSource \<Rightarrow> EventSource" where
  "close eventSource = eventSource\<lparr>closed := True\<rparr>"

text \<open>
  What the source can fire: a \<open>message\<close> event, whose data is the progress event
  that \<open>JSON.parse\<close> returns or \<open>None\<close> when parsing throws (a heartbeat), and an
  \<open>error\<close> event of the connection.
\<close>

datatype SourceEvent = MessageEvent "ProgressEvent option" | ErrorEvent

text \<open>The text \<open>SSE connection interrupted\<close> of the source, in UTF-8.\<close>

definition msg_sse_interrupted :: string where
  "msg_sse_interrupted = ''SSE '' @ [CHR 0xE8, CHR 0xBF, CHR 0x9E, CHR 0xE6, CHR 0x8E, CHR 0xA5,
     CHR 0xE4, CHR 0xB8, CHR 0xAD, CHR 0xE6, CHR 0x96, CHR 0xAD]"

text \<open>
  \<open>subscribeProgress(taskId, onEvent, onDone, onError)\<close> opens a source and installs
  the two handlers below; the function it returns is \<open>close\<close> on that source. The
  callbacks act on a state \<open>'s\<close> of the caller. The \<open>catch\<close> of the message handler
  ignores a message that does not parse.
\<close>

definition subscribeProgress :: "string \<Rightarrow> EventSource" where
  "subscribeProgress taskId = \<lparr>url = API_BASE @ ''/api/progress/'' @ taskId, closed = False\<rparr>"

definition onmessage ::
  "(ProgressEvent \<Rightarrow> 's \<Rightarrow> 's) \<Rightarrow> ('s \<Rightarrow> 's) \<Rightarrow> (string \<Rightarrow> 's \<Rightarrow> 's) \<Rightarrow>
     ProgressEvent option \<Rightarrow> EventSource \<times> 's \<Rightarrow> EventSource \<times> 's" where
  "onmessage onEvent onDone onError e = (\<lambda>(eventSource, s).
     case e of
       None \<Rightarrow> (eventSource, s)
     | Some data \<Rightarrow>
         if stage data = ''end'' then (close eventSource, onDone s)
         else if stage data = ''error'' then (close eventSource, onError (message data) s)
         else (eventSource, onEvent data s))"

definition onerror :: "(string \<Rightarrow> 's \<Rightarrow> 's) \<Rightarrow> EventSource \<times> 's \<Rightarrow> EventSource \<times> 's" where
  "onerror onError = (\<lambda>(eventSource, s). (close eventSource, onError msg_sse_interrupted s))"

text \<open>The browser delivers an event to the handlers of a source that is still open.\<close>

definition dispatchEvent ::
  "(ProgressEvent \<Rightarrow> 's \<Rightarrow> 's) \<Rightarrow> ('s \<Rightarrow> 's) \<Rightarrow> (string \<Rightarrow> 's \<Rightarrow> 's) \<Rightarrow>
     SourceEvent \<Rightarrow> EventSource \<times> 's \<Rightarrow> EventSource \<times> 's" where
  "dispatchEvent onEvent onDone onError ev = (\<lambda>(eventSource, s).
     if closed eventSource then (eventSource, s)
     else case ev of
       MessageEvent e \<Rightarrow> onmessage onEvent onDone onError e (eventSource, s)
     | ErrorEvent \<Rightarrow> onerror onError (eventSource, s))"

text \<open>A stream of events, delivered in order.\<close>

definition consume ::
  "(ProgressEvent \<Rightarrow> 's \<Rightarrow> 's) \<Rightarrow> ('s \<Rightarrow> 's) \<Rightarrow> (string \<Rightarrow> 's \<Rightarrow> 's) \<Rightarrow>
     SourceEvent list \<Rightarrow> EventSource \<times> 's \<Rightarrow> EventSource \<times> 's" where
  "consume onEvent onDone onError evs = fold (dispatchEvent onEvent onDone onError) evs"

subsection \<open>Describing a stream\<close>

text \<open>
  The events on which the handlers close the source: a progress event whose stage is
  \<open>end\<close> or \<open>error\<close>, and an error of the connection.
\<close>

fun terminal :: "SourceEvent \<Rightarrow> bool" where
  "terminal ErrorEvent = True"
| "terminal (MessageEvent None) = False"
| "terminal (MessageEvent (Some data)) = (stage data = ''end'' \<or> stage data = ''error'')"

text \<open>The callback a non-terminal event leads to: \<open>onEvent\<close> for a parsed one.\<close>

fun notify :: "(ProgressEvent \<Rightarrow> 's \<Rightarrow> 's) \<Rightarrow> SourceEvent \<Rightarrow> 's \<Rightarrow> 's" where
  "notify onEvent (MessageEvent (Some data)) s = onEvent data s"
| "notify onEvent _ s = s"

text \<open>The callback a terminal event leads to.\<close>

fun finish :: "('s \<Rightarrow> 's) \<Rightarrow> (string \<Rightarrow> 's \<Rightarrow> 's) \<Rightarrow> SourceEvent \<Rightarrow> 's \<Rightarrow> 's" where
  "finish onDone onError (MessageEvent (Some data)) s =
     (if stage data = ''end'' then onDone s else onError (message data) s)"
| "finish onDone onError _ s = onError msg_sse_interrupted s"

text \<open>Callbacks that record their invocations, to observe a subscription.\<close>

datatype Invocation = OnEvent ProgressEvent | OnDone | OnError string

definition recordEvent :: "ProgressEvent \<Rightarrow> Invocation list \<Rightarrow> Invocation list" where
  "recordEvent data tr = tr @ [OnEvent data]"

definition recordDone :: "Invocation list \<Rightarrow> Invocation list" where
  "recordDone tr = tr @ [OnDone]"

definition recordError :: "string \<Rightarrow> Invocation list \<Rightarrow> Invocation list" where
  "recordError error tr = tr @ [OnError error]"

section \<open>The settings panel (\<open>SettingsPanel.tsx\<close>)\<close>

text \<open>
  The change handler of the beats-per-cut field:
  \<open>update('beatsPerCut', parseInt(e.target.value) || 1)\<close>, where \<open>update\<close> copies the
  settings with the one key replaced. The operator \<open>||\<close> takes its right operand when
  the left one is falsy, which for a number means \<open>NaN\<close> or zero.
\<close>

definition update_beatsPerCut :: "int \<Rightarrow> ProjectSettings \<Rightarrow> ProjectSettings" where
  "update_beatsPerCut v settings = settings\<lparr>beatsPerCut := v\<rparr>"

definition onChange_beatsPerCut :: "string \<Rightarrow> ProjectSettings \<Rightarrow> ProjectSettings" where
  "onChange_beatsPerCut v settings =
     update_beatsPerCut
       (case parseInt v of None \<Rightarrow> 1 | Some n \<Rightarrow> if n = 0 then 1 else n) settings"

section \<open>The video upload zone (\<open>VideoUploadZone.tsx\<close>)\<close>

subsection \<open>\<open>handleFiles\<close>\<close>

text \<open>
  \<open>URL.createObjectURL\<close> and \<open>crypto.randomUUID\<close> are answered by the browser: the
  model takes the answer to the \<open>k\<close>-th call of the \<open>map\<close> callback as a function of
  \<open>k\<close>. The result is the list handed to \<open>onVideosChange\<close>; with no file list
  (\<open>null\<close>) the handler returns before that call and the list stays as it is.
\<close>

definition handleFiles ::
  "(nat \<Rightarrow> string) \<Rightarrow> (nat \<Rightarrow> string) \<Rightarrow> File list option \<Rightarrow> VideoItem list \<Rightarrow> VideoItem list" where
  "handleFiles createObjectURL randomUUID files videos =
     (case files of
        None \<Rightarrow> videos
      | Some fs \<Rightarrow>
          let newItems =
                map (\<lambda>(k, file).
                       let url = createObjectURL k
                       in \<lparr>video_id = randomUUID k, video_file = file,
                           video_name = file_name file, video_size = file_size file,
                           thumbnailUrl = url, previewUrl = url, duration = None\<rparr>)
                    (enumerate 0 (filter (\<lambda>f. startsWith (file_type f) ''video/'') fs))
          in videos @ newItems)"

subsection \<open>\<open>arrayMove\<close> of the drag-and-drop library\<close>

text \<open>
  \<open>arrayMove(array, from, to)\<close> of \<open>@dnd-kit/sortable\<close> copies the array, removes one
  element with \<open>splice(from, 1)\<close> and inserts it with \<open>splice(to', 0, item)\<close>, where
  \<open>to'\<close> is \<open>to\<close>, or the length plus \<open>to\<close> when \<open>to\<close> is negative; the position is
  computed before the removal. \<open>splice\<close> counts a negative start from the end and
  clamps it to the array. When \<open>splice\<close> removes nothing, the item is \<open>undefined\<close>:
  the elements of the result are options, \<open>None\<close> being \<open>undefined\<close>.
\<close>

definition relativeStart :: "int \<Rightarrow> nat \<Rightarrow> nat" where
  "relativeStart i len = (if i < 0 then nat (max (int len + i) 0) else min (nat i) len)"

definition arrayMove :: "'a list \<Rightarrow> int \<Rightarrow> int \<Rightarrow> 'a option list" where
  "arrayMove array from to =
     (let newArray = map Some array;
          target = (if to < 0 then int (length newArray) + to else to);
          start = relativeStart from (length newArray);
          item = (if start < length newArray then newArray ! start else None);
          newArray1 = take start newArray @ drop (Suc start) newArray;
          pos = relativeStart target (length newArray1)
      in take pos newArray1 @ [item] @ drop pos newArray1)"

subsection \<open>\<open>handleDragEnd\<close>\<close>

text \<open>
  The event of the library at the end of a drag: the identifier of the dragged item
  and that of the item it was dropped on, if any. The result is the list shown after
  the event, each element wrapped in \<open>Some\<close>.
\<close>

record DragEndEvent =
  active :: string
  over :: "string option"

definition handleDragEnd :: "DragEndEvent \<Rightarrow> VideoItem list \<Rightarrow> VideoItem option list" where
  "handleDragEnd event videos =
     (case over event of
        None \<Rightarrow> map Some videos
      | Some over_id \<Rightarrow>
          if active event \<noteq> over_id then
            (let oldIndex = findIndex (\<lambda>v. video_id v = active event) videos;
                 newIndex = findIndex (\<lambda>v. video_id v = over_id) videos
             in arrayMove videos oldIndex newIndex)
          else map Some videos)"

section \<open>The application (\<open>App.tsx\<close>)\<close>

subsection \<open>State\<close>

text \<open>
  What \<open>new Date()\<close> answers when a log line is written: the local time of day.
\<close>

record Date =
  getHours :: nat
  getMinutes :: nat
  getSeconds :: nat

text \<open>
  A call of \<open>subscribeProgress\<close> inside \<open>handleGenerate\<close> creates an event source
  and callbacks that close over the task identifier and over the local variable
  \<open>lastStage\<close>. The application keeps them all in a list; \<open>unsubRef\<close> holds the
  position of the source that the stored unsubscribe function closes.
\<close>

record Subscription =
  eventSource :: EventSource
  sub_taskId :: string
  lastStage :: string

record App =
  videos :: "VideoItem list"
  audio :: "AudioFile option"
  subtitle :: "SubtitleFile option"
  settings :: ProjectSettings
  processStatus :: ProcessStatus
  stages :: "ProcessStage list"
  logs :: "LogEntry list"
  overallProgress :: int
  downloadUrl :: "string option"
  unsubRef :: "nat option"
  subscriptions :: "Subscription list"

text \<open>The labels and messages of the source are Chinese text, given in UTF-8.\<close>

definition label_upload :: string where
  "label_upload = [CHR 0xE4, CHR 0xB8, CHR 0x8A, CHR 0xE4, CHR 0xBC, CHR 0xA0, CHR 0xE7, CHR 0xB4,
     CHR 0xA0, CHR 0xE6, CHR 0x9D, CHR 0x90, CHR 0xE5, CHR 0x88, CHR 0xB0, CHR 0xE6, CHR 0x9C,
     CHR 0x8D, CHR 0xE5, CHR 0x8A, CHR 0xA1, CHR 0xE5, CHR 0x99, CHR 0xA8]"

definition label_whisper :: string where
  "label_whisper = [CHR 0xE8, CHR 0xAF, CHR 0xAD, CHR 0xE9, CHR 0x9F, CHR 0xB3, CHR 0xE8, CHR 0xAF,
     CHR 0x86, CHR 0xE5, CHR 0x88, CHR 0xAB] @ '' (Whisper)''"

definition label_beat :: string where
  "label_beat = [CHR 0xE8, CHR 0x8A, CHR 0x82, CHR 0xE6, CHR 0x8B, CHR 0x8D, CHR 0xE6, CHR 0xA3,
     CHR 0x80, CHR 0xE6, CHR 0xB5, CHR 0x8B] @ '' (Librosa)''"

definition label_ffmpeg :: string where
  "label_ffmpeg = ''FFmpeg '' @ [CHR 0xE8, CHR 0xA7, CHR 0x86, CHR 0xE9, CHR 0xA2, CHR 0x91,
     CHR 0xE5, CHR 0x89, CHR 0xAA, CHR 0xE8, CHR 0xBE, CHR 0x91]"

definition label_finalize :: string where
  "label_finalize = [CHR 0xE7, CHR 0x94, CHR 0x9F, CHR 0xE6, CHR 0x88, CHR 0x90, CHR 0xE6, CHR 0x9C,
     CHR 0x80, CHR 0xE7, CHR 0xBB, CHR 0x88, CHR 0xE6, CHR 0x96, CHR 0x87, CHR 0xE4, CHR 0xBB,
     CHR 0xB6]"

text \<open>\<open>Please upload at least one video clip first\<close>.\<close>

definition msg_need_video :: string where
  "msg_need_video = [CHR 0xE8, CHR 0xAF, CHR 0xB7, CHR 0xE5, CHR 0x85, CHR 0x88, CHR 0xE4, CHR 0xB8,
     CHR 0x8A, CHR 0xE4, CHR 0xBC, CHR 0xA0, CHR 0xE8, CHR 0x87, CHR 0xB3, CHR 0xE5, CHR 0xB0,
     CHR 0x91, CHR 0xE4, CHR 0xB8, CHR 0x80, CHR 0xE4, CHR 0xB8, CHR 0xAA, CHR 0xE8, CHR 0xA7,
     CHR 0x86, CHR 0xE9, CHR 0xA2, CHR 0x91, CHR 0xE7, CHR 0xB4, CHR 0xA0, CHR 0xE6, CHR 0x9D,
     CHR 0x90]"

text \<open>\<open>Please upload the background music first\<close>.\<close>

definition msg_need_audio :: string where
  "msg_need_audio = [CHR 0xE8, CHR 0xAF, CHR 0xB7, CHR 0xE5, CHR 0x85, CHR 0x88, CHR 0xE4, CHR 0xB8,
     CHR 0x8A, CHR 0xE4, CHR 0xBC, CHR 0xA0, CHR 0xE8, CHR 0x83, CHR 0x8C, CHR 0xE6, CHR 0x99,
     CHR 0xAF, CHR 0xE9, CHR 0x9F, CHR 0xB3, CHR 0xE4, CHR 0xB9, CHR 0x90]"

text \<open>\<open>Uploading the material to the back-end server...\<close>.\<close>

definition msg_uploading :: string where
  "msg_uploading = [CHR 0xE6, CHR 0xAD, CHR 0xA3, CHR 0xE5, CHR 0x9C, CHR 0xA8, CHR 0xE4, CHR 0xB8,
     CHR 0x8A, CHR 0xE4, CHR 0xBC, CHR 0xA0, CHR 0xE7, CHR 0xB4, CHR 0xA0, CHR 0xE6, CHR 0x9D,
     CHR 0x90, CHR 0xE5, CHR 0x88, CHR 0xB0, CHR 0xE5, CHR 0x90, CHR 0x8E, CHR 0xE7, CHR 0xAB,
     CHR 0xAF, CHR 0xE6, CHR 0x9C, CHR 0x8D, CHR 0xE5, CHR 0x8A, CHR 0xA1, CHR 0xE5, CHR 0x99,
     CHR 0xA8] @ ''...''"

text \<open>\<open>Upload complete: n videos\<close>, before and after the number.\<close>

definition msg_uploaded_prefix :: string where
  "msg_uploaded_prefix = [CHR 0xE4, CHR 0xB8, CHR 0x8A, CHR 0xE4, CHR 0xBC, CHR 0xA0, CHR 0xE5,
     CHR 0xAE, CHR 0x8C, CHR 0xE6, CHR 0x88, CHR 0x90, CHR 0xEF, CHR 0xBC, CHR 0x9A]"

definition msg_uploaded_suffix :: string where
  "msg_uploaded_suffix = '' '' @ [CHR 0xE4, CHR 0xB8, CHR 0xAA, CHR 0xE8, CHR 0xA7, CHR 0x86,
     CHR 0xE9, CHR 0xA2, CHR 0x91]"

text \<open>\<open>Submitting the generation task...\<close>.\<close>

definition msg_submitting :: string where
  "msg_submitting = [CHR 0xE6, CHR 0xAD, CHR 0xA3, CHR 0xE5, CHR 0x9C, CHR 0xA8, CHR 0xE6, CHR 0x8F,
     CHR 0x90, CHR 0xE4, CHR 0xBA, CHR 0xA4, CHR 0xE7, CHR 0x94, CHR 0x9F, CHR 0xE6, CHR 0x88,
     CHR 0x90, CHR 0xE4, CHR 0xBB, CHR 0xBB, CHR 0xE5, CHR 0x8A, CHR 0xA1] @ ''...''"

text \<open>\<open>Task created, ID: \<close>.\<close>

definition msg_task_created :: string where
  "msg_task_created = [CHR 0xE4, CHR 0xBB, CHR 0xBB, CHR 0xE5, CHR 0x8A, CHR 0xA1, CHR 0xE5, CHR 0xB7,
     CHR 0xB2, CHR 0xE5, CHR 0x88, CHR 0x9B, CHR 0xE5, CHR 0xBB, CHR 0xBA, CHR 0xEF, CHR 0xBC,
     CHR 0x8C] @ ''ID: ''"

text \<open>\<open>===== All processing complete =====\<close>.\<close>

definition msg_all_done :: string where
  "msg_all_done = ''===== '' @ [CHR 0xE5, CHR 0x85, CHR 0xA8, CHR 0xE9, CHR 0x83, CHR 0xA8, CHR 0xE5,
     CHR 0xA4, CHR 0x84, CHR 0xE7, CHR 0x90, CHR 0x86, CHR 0xE5, CHR 0xAE, CHR 0x8C, CHR 0xE6,
     CHR 0x88, CHR 0x90] @ '' =====''"

text \<open>\<open>Processing failed: \<close>.\<close>

definition msg_processing_failed :: string where
  "msg_processing_failed = [CHR 0xE5, CHR 0xA4, CHR 0x84, CHR 0xE7, CHR 0x90, CHR 0x86, CHR 0xE5,
     CHR 0xA4, CHR 0xB1, CHR 0xE8, CHR 0xB4, CHR 0xA5] @ '': ''"

text \<open>\<open>Request failed: \<close>.\<close>

definition msg_request_failed :: string where
  "msg_request_failed = [CHR 0xE8, CHR 0xAF, CHR 0xB7, CHR 0xE6, CHR 0xB1, CHR 0x82, CHR 0xE5,
     CHR 0xA4, CHR 0xB1, CHR 0xE8, CHR 0xB4, CHR 0xA5] @ '': ''"

definition INITIAL_STAGES :: "ProcessStage list" where
  "INITIAL_STAGES =
     [\<lparr>stage_id = ''upload'', label = label_upload, progress = 0, status = StagePending\<rparr>,
      \<lparr>stage_id = ''whisper'', label = label_whisper, progress = 0, status = StagePending\<rparr>,
      \<lparr>stage_id = ''beat'', label = label_beat, progress = 0, status = StagePending\<rparr>,
      \<lparr>stage_id = ''ffmpeg'', label = label_ffmpeg, progress = 0, status = StagePending\<rparr>,
      \<lparr>stage_id = ''finalize'', label = label_finalize, progress = 0, status = StagePending\<rparr>]"

definition DEFAULT_SETTINGS :: ProjectSettings where
  "DEFAULT_SETTINGS =
     \<lparr>beatSensitivity = 1, whisperModel = ''small'', language = ''Swedish'', beatsPerCut = 2,
      totalDuration = 2108 / 100, videoWidth = 1080, videoHeight = 1920, fps = 30,
      tempPath = ''output/temp'', outputPath = ''output''\<rparr>"

text \<open>The state of the component when it is first rendered.\<close>

definition initialApp :: App where
  "initialApp =
     \<lparr>videos = [], audio = None, subtitle = None, settings = DEFAULT_SETTINGS,
      processStatus = Idle, stages = INITIAL_STAGES, logs = [], overallProgress = 0,
      downloadUrl = None, unsubRef = None, subscriptions = []\<rparr>"

subsection \<open>\<open>addLog\<close> and \<open>updateStage\<close>\<close>

definition formatTime :: "Date \<Rightarrow> string" where
  "formatTime now =
     padStart2 (toString (getHours now)) @ '':'' @ padStart2 (toString (getMinutes now)) @ '':''
       @ padStart2 (toString (getSeconds now))"

definition addLog :: "Date \<Rightarrow> string \<Rightarrow> LogType \<Rightarrow> App \<Rightarrow> App" where
  "addLog now msg type w =
     w\<lparr>logs := logs w @ [\<lparr>timestamp = formatTime now, log_message = msg, log_type = type\<rparr>]\<rparr>"

definition updateStage :: "string \<Rightarrow> StageStatus \<Rightarrow> rat \<Rightarrow> App \<Rightarrow> App" where
  "updateStage stageId st p w =
     w\<lparr>stages := map (\<lambda>s. if stage_id s = stageId then s\<lparr>status := st, progress := p\<rparr> else s)
                     (stages w)\<rparr>"

subsection \<open>\<open>handleGenerate\<close>, up to the upload\<close>

text \<open>
  \<open>handleGenerate\<close> is an \<open>async\<close> function: it runs to its first \<open>await\<close>, and
  resumes when the awaited request settles. The model has one function for each
  part. The first part ends with the call of \<open>uploadFiles\<close>, whose arguments are the
  request below; with no request returned, the function has returned at one of the
  two checks.
\<close>

record UploadRequest =
  upload_videos :: "File list"
  upload_audio :: "File option"
  upload_subtitle :: "File option"

text \<open>Closing the source behind the stored unsubscribe function.\<close>

definition unsubscribe :: "nat \<Rightarrow> App \<Rightarrow> App" where
  "unsubscribe i w =
     (if i < length (subscriptions w) then
        w\<lparr>subscriptions := (subscriptions w)
             [i := (subscriptions w ! i)\<lparr>eventSource := close (eventSource (subscriptions w ! i))\<rparr>]\<rparr>
      else w)"

text \<open>\<open>if (unsubRef.current) { unsubRef.current(); unsubRef.current = null }\<close>.\<close>

definition closePrevious :: "App \<Rightarrow> App" where
  "closePrevious w =
     (case unsubRef w of
        None \<Rightarrow> w
      | Some i \<Rightarrow> (unsubscribe i w)\<lparr>unsubRef := None\<rparr>)"

text \<open>The five assignments that reset the progress state.\<close>

definition resetProgress :: "App \<Rightarrow> App" where
  "resetProgress w =
     w\<lparr>processStatus := Processing, stages := INITIAL_STAGES, logs := [],
       overallProgress := 0, downloadUrl := None\<rparr>"

definition handleGenerate :: "Date \<Rightarrow> App \<Rightarrow> App \<times> UploadRequest option" where
  "handleGenerate now w =
     (if length (videos w) = 0 then (addLog now msg_need_video LogError w, None)
      else case audio w of
        None \<Rightarrow> (addLog now msg_need_audio LogError w, None)
      | Some a \<Rightarrow>
          let w1 = closePrevious w;
              w2 = resetProgress w1;
              w3 = updateStage ''upload'' StageRunning 0 w2;
              w4 = addLog now msg_uploading LogInfo w3;
              videoFiles = map video_file (videos w)
          in (w4, Some \<lparr>upload_videos = videoFiles, upload_audio = Some (audio_file a),
                        upload_subtitle = map_option subtitle_file (subtitle w)\<rparr>))"

subsection \<open>\<open>handleGenerate\<close>, after the upload\<close>

text \<open>
  An awaited request either rejects, and the \<open>catch\<close> block reads the message of the
  error, or resolves with a value: \<open>Inl\<close> the message, \<open>Inr\<close> the value. The second
  part reads the settings that the handler closed over when it was created; they are
  a parameter. It ends with the call of \<open>startGenerate\<close>.
\<close>

definition catchBlock :: "Date \<Rightarrow> string \<Rightarrow> App \<Rightarrow> App" where
  "catchBlock now err w = addLog now (msg_request_failed @ err) LogError (w\<lparr>processStatus := Error\<rparr>)"

definition handleGenerate_uploaded ::
  "Date \<Rightarrow> Date \<Rightarrow> ProjectSettings \<Rightarrow> string + UploadResult \<Rightarrow> App \<Rightarrow> App \<times> GenerateConfig option" where
  "handleGenerate_uploaded now now' settings0 outcome w =
     (case outcome of
        Inl err \<Rightarrow> (catchBlock now err w, None)
      | Inr uploadResult \<Rightarrow>
          let w1 = updateStage ''upload'' StageCompleted 100 w;
              w2 = addLog now (msg_uploaded_prefix @ toString (length (video_paths uploadResult))
                                 @ msg_uploaded_suffix) LogSuccess w1;
              w3 = w2\<lparr>overallProgress := 10\<rparr>;
              w4 = addLog now' msg_submitting LogInfo w3
          in (w4, Some \<lparr>cfg_video_paths = video_paths uploadResult,
                        cfg_audio_path = audio_path uploadResult,
                        cfg_srt_path = srt_path uploadResult,
                        cfg_whisper_model = whisperModel settings0,
                        cfg_language = language settings0,
                        cfg_beat_sensitivity = beatSensitivity settings0,
                        cfg_beats_per_cut = beatsPerCut settings0,
                        cfg_total_duration = totalDuration settings0,
                        cfg_video_width = videoWidth settings0,
                        cfg_video_height = videoHeight settings0,
                        cfg_fps = fps settings0,
                        cfg_temp_path = tempPath settings0,
                        cfg_output_path = outputPath settings0\<rparr>))"

subsection \<open>\<open>handleGenerate\<close>, after the task is created\<close>

text \<open>
  The third part subscribes to the progress of the task: a new source with its own
  \<open>lastStage\<close>, empty at first, and \<open>unsubRef\<close> pointing to it.
\<close>

definition handleGenerate_started :: "Date \<Rightarrow> string + string \<Rightarrow> App \<Rightarrow> App" where
  "handleGenerate_started now outcome w =
     (case outcome of
        Inl err \<Rightarrow> catchBlock now err w
      | Inr taskId \<Rightarrow>
          let w1 = addLog now (msg_task_created @ slice0 taskId 8 @ ''...'') LogInfo w;
              unsub = length (subscriptions w1);
              w2 = w1\<lparr>subscriptions := subscriptions w1 @
                     [\<lparr>eventSource = subscribeProgress taskId, sub_taskId = taskId,
                       lastStage = ''''\<rparr>]\<rparr>
          in w2\<lparr>unsubRef := Some unsub\<rparr>)"

subsection \<open>The three callbacks of the subscription\<close>

text \<open>
  \<open>stageWeights\<close> is an object literal, and \<open>stageWeights[event.stage]\<close> also finds
  the properties every object inherits. Such a value is truthy and cannot be
  destructured as a pair: the callback throws there, after its stage updates and
  before the log line, and the \<open>catch\<close> of the message handler swallows the error.
  The overall progress is computed in doubles: the division, the product and the sum
  are each followed by the rounding \<open>rd\<close>, and \<open>Math.round\<close> is exact.
\<close>

definition stageWeights :: "string \<Rightarrow> (int \<times> int) option" where
  "stageWeights = map_of
     [(''whisper'', (10, 30)), (''beat'', (30, 45)), (''ffmpeg'', (45, 90)),
      (''finalize'', (90, 100))]"

definition inheritedKeys :: "string list" where
  "inheritedKeys =
     [''constructor'', ''hasOwnProperty'', ''isPrototypeOf'', ''propertyIsEnumerable'',
      ''toLocaleString'', ''toString'', ''valueOf'', ''__proto__'', ''__defineGetter__'',
      ''__defineSetter__'', ''__lookupGetter__'', ''__lookupSetter__'']"

definition set_lastStage :: "nat \<Rightarrow> string \<Rightarrow> App \<Rightarrow> App" where
  "set_lastStage i v w =
     w\<lparr>subscriptions := (subscriptions w)[i := (subscriptions w ! i)\<lparr>lastStage := v\<rparr>]\<rparr>"

definition handleGenerate_onEvent ::
  "(rat \<Rightarrow> rat) \<Rightarrow> nat \<Rightarrow> Date \<Rightarrow> ProgressEvent \<Rightarrow> App \<Rightarrow> App" where
  "handleGenerate_onEvent rd i now event w =
     (let previous = lastStage (subscriptions w ! i);
          w1 = (if stage event \<noteq> previous \<and> previous \<noteq> ''''
                then updateStage previous StageCompleted 100 w else w);
          w2 = set_lastStage i (stage event) w1
      in if stage event = ''done'' then w2
         else
           let w3 = updateStage (stage event) StageRunning (percent event) w2
           in if stage event \<in> set inheritedKeys then w3
              else
                let w4 = (case stageWeights (stage event) of
                            None \<Rightarrow> w3
                          | Some (mn, mx) \<Rightarrow>
                              w3\<lparr>overallProgress :=
                                   Math_round
                                     (rd (of_int mn
                                          + rd (rd (percent event / 100) * of_int (mx - mn))))\<rparr>)
                in addLog now (message event)
                     (if stage event = ''error'' then LogError else LogInfo) w4)"

definition handleGenerate_onDone :: "nat \<Rightarrow> Date \<Rightarrow> App \<Rightarrow> App" where
  "handleGenerate_onDone i now w =
     (let w1 = w\<lparr>stages := map (\<lambda>s. s\<lparr>status := StageCompleted, progress := 100\<rparr>) (stages w)\<rparr>;
          w2 = w1\<lparr>overallProgress := 100\<rparr>;
          w3 = w2\<lparr>processStatus := Completed\<rparr>;
          w4 = w3\<lparr>downloadUrl := Some (getDownloadUrl (sub_taskId (subscriptions w ! i)))\<rparr>
      in addLog now msg_all_done LogSuccess w4)"

definition handleGenerate_onError :: "Date \<Rightarrow> string \<Rightarrow> App \<Rightarrow> App" where
  "handleGenerate_onError now error w =
     addLog now (msg_processing_failed @ error) LogError (w\<lparr>processStatus := Error\<rparr>)"

subsection \<open>Events reaching a subscription of the application\<close>

text \<open>
  The browser delivers an event to the handlers of the \<open>i\<close>-th source; the closing of
  the source by a handler is written back to the list.
\<close>

definition deliver :: "(rat \<Rightarrow> rat) \<Rightarrow> nat \<Rightarrow> Date \<Rightarrow> SourceEvent \<Rightarrow> App \<Rightarrow> App" where
  "deliver rd i now ev w =
     (if i < length (subscriptions w) then
        (case dispatchEvent (handleGenerate_onEvent rd i now) (handleGenerate_onDone i now)
                (handleGenerate_onError now) ev (eventSource (subscriptions w ! i), w) of
           (es, w') \<Rightarrow>
             w'\<lparr>subscriptions := (subscriptions w')
                  [i := (subscriptions w' ! i)\<lparr>eventSource := es\<rparr>]\<rparr>)
      else w)"

text \<open>A stream of events, each with the time at which it is handled.\<close>

fun run :: "(rat \<Rightarrow> rat) \<Rightarrow> nat \<Rightarrow> (Date \<times> SourceEvent) list \<Rightarrow> App \<Rightarrow> App" where
  "run rd i [] w = w"
| "run rd i ((now, ev) # evs) w = run rd i evs (deliver rd i now ev w)"

subsection \<open>A whole invocation\<close>

text \<open>
  One invocation of \<open>handleGenerate\<close> from the click to the last event of its
  subscription: the three parts in order, each continuing only where the source does,
  with the outcomes of the two requests and the stream of the new subscription given.
\<close>

definition generate ::
  "(rat \<Rightarrow> rat) \<Rightarrow> Date \<Rightarrow> Date \<Rightarrow> Date \<Rightarrow> Date \<Rightarrow> string + UploadResult \<Rightarrow>
     string + string \<Rightarrow> (Date \<times> SourceEvent) list \<Rightarrow> App \<Rightarrow> App" where
  "generate rd now1 now2 now3 now4 uploaded started evs w =
     (case handleGenerate now1 w of
        (w1, None) \<Rightarrow> w1
      | (w1, Some request) \<Rightarrow>
          (case handleGenerate_uploaded now2 now3 (settings w) uploaded w1 of
             (w2, None) \<Rightarrow> w2
           | (w2, Some config) \<Rightarrow>
               (case started of
                  Inl err \<Rightarrow> handleGenerate_started now4 started w2
                | Inr taskId \<Rightarrow>
                    run rd (length (subscriptions w2)) evs
                      (handleGenerate_started now4 started w2))))"

section \<open>Describing runs\<close>

text \<open>Every entry of the stage list with the given identifier is completed at 100.\<close>

definition stageCompleted :: "string \<Rightarrow> App \<Rightarrow> bool" where
  "stageCompleted sid w =
     list_all (\<lambda>s. if stage_id s = sid then status s = StageCompleted \<and> progress s = 100 else True)
       (stages w)"

text \<open>An event that is not a progress event of the given stage.\<close>

fun otherStage :: "string \<Rightarrow> SourceEvent \<Rightarrow> bool" where
  "otherStage sid (MessageEvent (Some data)) = (stage data \<noteq> sid)"
| "otherStage sid _ = True"

text \<open>
  The order of the pipeline and a well-behaved sequence of progress events: every
  event is of one of the four stages with a percentage from 0 to 100, and each event
  is followed by one of the same stage with no smaller percentage or by one of a
  later stage.
\<close>

definition stageRank :: "string \<Rightarrow> nat option" where
  "stageRank = map_of [(''whisper'', 1), (''beat'', 2), (''ffmpeg'', 3), (''finalize'', 4)]"

definition inRange :: "ProgressEvent \<Rightarrow> bool" where
  "inRange e = (stageRank (stage e) \<noteq> None \<and> 0 \<le> percent e \<and> percent e \<le> 100)"

definition follows :: "ProgressEvent \<Rightarrow> ProgressEvent \<Rightarrow> bool" where
  "follows e1 e2 =
     (if stage e1 = stage e2 then percent e1 \<le> percent e2
      else case (stageRank (stage e1), stageRank (stage e2)) of
             (Some a, Some b) \<Rightarrow> a < b
           | _ \<Rightarrow> False)"

fun pipelineOrdered :: "ProgressEvent list \<Rightarrow> bool" where
  "pipelineOrdered [] = True"
| "pipelineOrdered [e] = inRange e"
| "pipelineOrdered (e1 # e2 # es) = (inRange e1 \<and> follows e1 e2 \<and> pipelineOrdered (e2 # es))"

text \<open>The stream in which the given progress events arrive one by one.\<close>

definition progressMessages :: "(Date \<times> ProgressEvent) list \<Rightarrow> (Date \<times> SourceEvent) list" where
  "progressMessages pes = map (\<lambda>(now, e). (now, MessageEvent (Some e))) pes"

text \<open>The overall progress that the weights give a progress event, as the callback computes it.\<close>

definition stageProgress :: "(rat \<Rightarrow> rat) \<Rightarrow> ProgressEvent \<Rightarrow> int" where
  "stageProgress rd e =
     (case stageWeights (stage e) of
        None \<Rightarrow> 0
      | Some (mn, mx) \<Rightarrow>
          Math_round (rd (of_int mn + rd (rd (percent e / 100) * of_int (mx - mn)))))"

text \<open>The overall progress after each event that the \<open>onEvent\<close> callback receives.\<close>

fun overallTrace ::
  "(rat \<Rightarrow> rat) \<Rightarrow> nat \<Rightarrow> (Date \<times> ProgressEvent) list \<Rightarrow> App \<Rightarrow> int list" where
  "overallTrace rd i [] w = []"
| "overallTrace rd i ((now, e) # es) w =
     overallProgress (handleGenerate_onEvent rd i now e w)
       # overallTrace rd i es (handleGenerate_onEvent rd i now e w)"

text \<open>
  How a stream ends for the subscription that reads it: by its first terminal event,
  if it has one.
\<close>

datatype Outcome = StillRunning | Done | Failed

fun outcome :: "(Date \<times> SourceEvent) list \<Rightarrow> Outcome" where
  "outcome [] = StillRunning"
| "outcome ((now, MessageEvent None) # evs) = outcome evs"
| "outcome ((now, MessageEvent (Some data)) # evs) =
     (if stage data = ''end'' then Done
      else if stage data = ''error'' then Failed
      else outcome evs)"
| "outcome ((now, ErrorEvent) # evs) = Failed"

section \<open>Sample values\<close>

text \<open>A video item with a given identifier, for concrete evaluations.\<close>

definition sampleFile :: "string \<Rightarrow> string \<Rightarrow> File" where
  "sampleFile n t = \<lparr>file_name = n, file_size = 1024, file_type = t\<rparr>"

definition sampleVideo :: "string \<Rightarrow> VideoItem" where
  "sampleVideo i =
     \<lparr>video_id = i, video_file = sampleFile (i @ ''.mp4'') ''video/mp4'',
      video_name = i @ ''.mp4'', video_size = 1024, thumbnailUrl = ''blob:'' @ i,
      previewUrl = ''blob:'' @ i, duration = None\<rparr>"

definition sampleDate :: Date where
  "sampleDate = \<lparr>getHours = 9, getMinutes = 5, getSeconds = 31\<rparr>"

definition sampleAudio :: AudioFile where
  "sampleAudio =
     \<lparr>audio_id = ''m'', audio_file = sampleFile ''song.mp3'' ''audio/mpeg'',
      audio_name = ''song.mp3'', audio_size = 1024\<rparr>"

text \<open>The state in which an earlier task \<open>t0\<close> has completed.\<close>

definition completedApp :: App where
  "completedApp =
     \<lparr>videos = [sampleVideo ''a'', sampleVideo ''b''], audio = Some sampleAudio, subtitle = None,
      settings = DEFAULT_SETTINGS, processStatus = Completed,
      stages = map (\<lambda>s. s\<lparr>status := StageCompleted, progress := 100\<rparr>) INITIAL_STAGES,
      logs = [\<lparr>timestamp = ''09:00:00'', log_message = msg_all_done, log_type = LogSuccess\<rparr>],
      overallProgress = 100, downloadUrl = Some (getDownloadUrl ''t0''), unsubRef = Some 0,
      subscriptions = [\<lparr>eventSource = close (subscribeProgress ''t0''), sub_taskId = ''t0'',
                        lastStage = ''done''\<rparr>]\<rparr>"

text \<open>The state in which the task \<open>t1\<close> has just been subscribed to.\<close>

definition subscribedApp :: App where
  "subscribedApp =
     \<lparr>videos = [sampleVideo ''a'', sampleVideo ''b''], audio = Some sampleAudio, subtitle = None,
      settings = DEFAULT_SETTINGS, processStatus = Processing,
      stages = map (\<lambda>s. if stage_id s = ''upload''
                         then s\<lparr>status := StageCompleted, progress := 100\<rparr> else s) INITIAL_STAGES,
      logs = [], overallProgress = 10, downloadUrl = None, unsubRef = Some 0,
      subscriptions = [\<lparr>eventSource = subscribeProgress ''t1'', sub_taskId = ''t1'',
                        lastStage = ''''\<rparr>]\<rparr>"

definition sampleEvent :: "string \<Rightarrow> rat \<Rightarrow> ProgressEvent" where
  "sampleEvent s p = \<lparr>stage = s, message = ''working'', percent = p\<rparr>"

section \<open>Verification\<close>

subsection \<open>The progress subscription\<close>

lemma dispatchEvent_closed:
  "closed es \<Longrightarrow> dispatchEvent onEvent onDone onError ev (es, s) = (es, s)"
  by (simp add: dispatchEvent_def)

lemma consume_closed:
  "closed es \<Longrightarrow> consume onEvent onDone onError evs (es, s) = (es, s)"
  by (induction evs) (simp_all add: consume_def dispatchEvent_closed)

lemma consume_Cons:
  "consume onEvent onDone onError (ev # evs) p =
     consume onEvent onDone onError evs (dispatchEvent onEvent onDone onError ev p)"
  by (simp add: consume_def)

lemma dispatchEvent_terminal:
  "\<not> closed es \<Longrightarrow> terminal ev \<Longrightarrow>
     dispatchEvent onEvent onDone onError ev (es, s) = (close es, finish onDone onError ev s)"
  by (cases ev rule: terminal.cases) (auto simp: dispatchEvent_def onmessage_def onerror_def)

lemma dispatchEvent_not_terminal:
  "\<not> closed es \<Longrightarrow> \<not> terminal ev \<Longrightarrow>
     dispatchEvent onEvent onDone onError ev (es, s) = (es, notify onEvent ev s)"
  by (cases ev rule: terminal.cases) (auto simp: dispatchEvent_def onmessage_def onerror_def)

lemma dropWhile_Cons_ex: "dropWhile P xs = y # ys \<Longrightarrow> \<exists>x\<in>set xs. \<not> P x"
  by (metis dropWhile_eq_Nil_conv list.discI)

lemma consume_open:
  "\<not> closed es \<Longrightarrow>
   consume onEvent onDone onError evs (es, s) =
     (case dropWhile (\<lambda>e. \<not> terminal e) evs of
        [] \<Rightarrow> (es, fold (notify onEvent) evs s)
      | t # _ \<Rightarrow>
          (close es,
           finish onDone onError t
             (fold (notify onEvent) (takeWhile (\<lambda>e. \<not> terminal e) evs) s)))"
proof (induction evs arbitrary: s)
  case Nil
  then show ?case by (simp add: consume_def)
next
  case (Cons ev evs)
  show ?case
  proof (cases "terminal ev")
    case True
    with Cons.prems show ?thesis
      by (simp add: consume_Cons dispatchEvent_terminal consume_closed close_def)
  next
    case False
    with Cons show ?thesis
      by (auto simp: consume_Cons dispatchEvent_not_terminal split: list.split
          dest: dropWhile_Cons_ex)
  qed
qed

text \<open>
  Claim C1, as the code has it. A subscription consumes its stream as follows. The
  events before the first terminal one are passed to \<open>onEvent\<close> when they parse
  (an event of stage \<open>done\<close> among them) and the source stays open. The first
  event that is of stage \<open>end\<close>, of stage \<open>error\<close> or an error of the connection
  closes the source: \<open>end\<close> calls \<open>onDone\<close>, \<open>error\<close> calls \<open>onError\<close> with the
  message of the event, a connection error calls \<open>onError\<close> with a fixed text.
  Nothing after it reaches a callback. The source ends up closed exactly when the
  stream holds such an event.
\<close>

theorem subscribeProgress_terminates_on_end_or_error:
  "consume onEvent onDone onError evs (subscribeProgress taskId, s) =
     (case dropWhile (\<lambda>e. \<not> terminal e) evs of
        [] \<Rightarrow> (subscribeProgress taskId, fold (notify onEvent) evs s)
      | t # _ \<Rightarrow>
          (close (subscribeProgress taskId),
           finish onDone onError t
             (fold (notify onEvent) (takeWhile (\<lambda>e. \<not> terminal e) evs) s)))
   \<and> closed (fst (consume onEvent onDone onError evs (subscribeProgress taskId, s)))
       = list_ex terminal evs"
proof -
  have o: "\<not> closed (subscribeProgress taskId)"
    by (simp add: subscribeProgress_def)
  show ?thesis
    unfolding consume_open [OF o] using o
    by (auto simp: close_def list_ex_iff split: list.split dest: dropWhile_Cons_ex)
qed

text \<open>
  Claim C1 as stated fails: an event of stage \<open>done\<close> goes to \<open>onEvent\<close>; the source
  stays open and \<open>onDone\<close> is not called.
\<close>

theorem subscribeProgress_done_does_not_terminate:
  "consume recordEvent recordDone recordError
     [MessageEvent (Some \<lparr>stage = ''done'', message = ''ok'', percent = 100\<rparr>)]
     (subscribeProgress ''t1'', [])
   = (\<lparr>url = ''http://localhost:8000/api/progress/t1'', closed = False\<rparr>,
      [OnEvent \<lparr>stage = ''done'', message = ''ok'', percent = 100\<rparr>])"
  by (simp add: consume_def dispatchEvent_def onmessage_def subscribeProgress_def
      recordEvent_def API_BASE_def)

subsection \<open>Reordering the video list\<close>

lemma relativeStart_less: "0 < n \<Longrightarrow> i < int n \<Longrightarrow> relativeStart i n < n"
  by (auto simp: relativeStart_def)

lemma mset_insert_at: "mset (take p xs @ [x] @ drop p xs) = add_mset x (mset xs)"
proof -
  have "mset (take p xs) + mset (drop p xs) = mset xs"
    by (metis append_take_drop_id mset_append)
  then show ?thesis by simp
qed

lemma mset_remove_at:
  assumes "i < length xs"
  shows "add_mset (xs ! i) (mset (take i xs @ drop (Suc i) xs)) = mset xs"
proof -
  from assms have "xs = take i xs @ xs ! i # drop (Suc i) xs"
    by (rule id_take_nth_drop)
  then have "mset xs = mset (take i xs @ xs ! i # drop (Suc i) xs)" by simp
  then show ?thesis by simp
qed

lemma mset_arrayMove:
  "from < int (length array) \<Longrightarrow> array \<noteq> [] \<Longrightarrow>
     mset (arrayMove array from to) = mset (map Some array)"
  unfolding arrayMove_def Let_def
  apply (subst mset_insert_at)
  apply (simp only: mset_map)
  using relativeStart_less [of "length (map Some array)" "from"]
    mset_remove_at [of "relativeStart from (length (map Some array))" "map Some array"]
  apply simp
  done

lemma findIndex_less: "findIndex p xs < int (length xs)"
  by (induction xs) (auto simp: Let_def)

lemma handleDragEnd_move:
  "over event = Some over_id \<Longrightarrow> active event \<noteq> over_id \<Longrightarrow>
     handleDragEnd event vs =
       arrayMove vs (findIndex (\<lambda>v. video_id v = active event) vs)
         (findIndex (\<lambda>v. video_id v = over_id) vs)"
  by (simp add: handleDragEnd_def)

lemma handleDragEnd_same:
  "over event = None \<or> over event = Some (active event) \<Longrightarrow>
     handleDragEnd event vs = map Some vs"
  by (auto simp: handleDragEnd_def)

text \<open>
  Claim C9. An item can only be dragged in a list that has one, and the component
  shows the sortable grid only then. For such a list the result of \<open>handleDragEnd\<close>
  holds the same items with the same multiplicities, whatever the two identifiers of
  the event are; and it is the list itself when the item is dropped outside any
  target or on itself.
\<close>

theorem handleDragEnd_permutation:
  "vs \<noteq> [] \<Longrightarrow>
     mset (handleDragEnd event vs) = mset (map Some vs) \<and>
     (over event = None \<or> over event = Some (active event) \<longrightarrow>
        handleDragEnd event vs = map Some vs)"
proof (cases "over event = None \<or> over event = Some (active event)")
  case True
  then show ?thesis by (simp only: handleDragEnd_same simp_thms)
next
  case False
  assume ne: "vs \<noteq> []"
  from False obtain over_id where o: "over event = Some over_id" "active event \<noteq> over_id"
    by auto
  have "mset (handleDragEnd event vs) = mset (map Some vs)"
    unfolding handleDragEnd_move [OF o]
    by (rule mset_arrayMove [OF findIndex_less ne])
  with False show ?thesis by auto
qed

theorem handleDragEnd_permutation_witness:
  "[sampleVideo ''a'', sampleVideo ''b'', sampleVideo ''c''] \<noteq> [] \<and>
   mset (handleDragEnd \<lparr>active = ''a'', over = Some ''c''\<rparr>
           [sampleVideo ''a'', sampleVideo ''b'', sampleVideo ''c''])
     = mset (map Some [sampleVideo ''a'', sampleVideo ''b'', sampleVideo ''c'']) \<and>
   handleDragEnd \<lparr>active = ''a'', over = Some ''a''\<rparr>
       [sampleVideo ''a'', sampleVideo ''b'', sampleVideo ''c'']
     = map Some [sampleVideo ''a'', sampleVideo ''b'', sampleVideo ''c'']"
proof -
  let ?vs = "[sampleVideo ''a'', sampleVideo ''b'', sampleVideo ''c'']"
  have ne: "?vs \<noteq> []" by simp
  have 1: "mset (handleDragEnd \<lparr>active = ''a'', over = Some ''c''\<rparr> ?vs) = mset (map Some ?vs)"
    using handleDragEnd_permutation [OF ne, of "\<lparr>active = ''a'', over = Some ''c''\<rparr>"]
    by (rule conjunct1)
  have 2: "handleDragEnd \<lparr>active = ''a'', over = Some ''a''\<rparr> ?vs = map Some ?vs"
    using handleDragEnd_permutation [OF ne, of "\<lparr>active = ''a'', over = Some ''a''\<rparr>"]
    by simp
  from ne 1 2 show ?thesis by blast
qed

text \<open>
  With no video in the list there is nothing to drag; an event with two different
  identifiers would then put \<open>undefined\<close> into the list.
\<close>

lemma arrayMove_empty: "arrayMove [] (-1) (-1) = [None]"
  by (simp add: arrayMove_def relativeStart_def)

lemma handleDragEnd_empty_list:
  "over event = Some over_id \<Longrightarrow> active event \<noteq> over_id \<Longrightarrow> handleDragEnd event [] = [None]"
  by (simp add: handleDragEnd_move arrayMove_empty)

subsection \<open>Adding files to the video list\<close>

lemma map_enumerate_snd: "map (\<lambda>x. g (snd x)) (enumerate n xs) = map g xs"
  by (induction xs arbitrary: n) simp_all

text \<open>
  Claim C8. The list handed on by \<open>handleFiles\<close> starts with the existing videos
  and continues with one new item for each file whose type starts with \<open>video/\<close>,
  in the order of the file list, carrying the file, its name and its size; the other
  files leave no trace, and the function has no failing branch. With no file list the
  videos stay as they are.
\<close>

theorem handleFiles_appends_videos:
  "take (length vs) (handleFiles createObjectURL randomUUID (Some files) vs) = vs \<and>
   map (\<lambda>v. (video_file v, video_name v, video_size v))
       (drop (length vs) (handleFiles createObjectURL randomUUID (Some files) vs))
     = map (\<lambda>f. (f, file_name f, file_size f))
         (filter (\<lambda>f. startsWith (file_type f) ''video/'') files) \<and>
   handleFiles createObjectURL randomUUID None vs = vs"
proof -
  let ?accepted = "filter (\<lambda>f. startsWith (file_type f) ''video/'') files"
  have "map (\<lambda>x. (snd x, file_name (snd x), file_size (snd x))) (enumerate 0 ?accepted)
          = map (\<lambda>f. (f, file_name f, file_size f)) ?accepted"
    by (rule map_enumerate_snd [of "\<lambda>f. (f, file_name f, file_size f)"])
  then show ?thesis
    by (simp add: handleFiles_def Let_def split_def comp_def)
qed

subsection \<open>The beats-per-cut field\<close>

lemma parseInt_sign:
  assumes "parseInt v = Some n"
    "dropWhile isWhiteSpace v = [] \<or> hd (dropWhile isWhiteSpace v) \<noteq> CHR ''-''"
  shows "0 \<le> n"
  using assms by (auto simp: parseInt_def Let_def split: if_splits)

text \<open>
  What the handler does ensure: the stored value is never zero, and it is at least one
  when the text, after leading white space, does not start with a minus sign.
\<close>

lemma onChange_beatsPerCut_without_minus:
  "beatsPerCut (onChange_beatsPerCut v s) \<noteq> 0 \<and>
   (dropWhile isWhiteSpace v = [] \<or> hd (dropWhile isWhiteSpace v) \<noteq> CHR ''-'' \<longrightarrow>
      1 \<le> beatsPerCut (onChange_beatsPerCut v s))"
proof (cases "parseInt v")
  case None
  then show ?thesis by (simp add: onChange_beatsPerCut_def update_beatsPerCut_def)
next
  case (Some n)
  show ?thesis
  proof (intro conjI impI)
    from Some show "beatsPerCut (onChange_beatsPerCut v s) \<noteq> 0"
      by (simp add: onChange_beatsPerCut_def update_beatsPerCut_def)
  next
    assume "dropWhile isWhiteSpace v = [] \<or> hd (dropWhile isWhiteSpace v) \<noteq> CHR ''-''"
    with Some have "0 \<le> n" by (rule parseInt_sign)
    with Some show "1 \<le> beatsPerCut (onChange_beatsPerCut v s)"
      by (simp add: onChange_beatsPerCut_def update_beatsPerCut_def)
  qed
qed

text \<open>
  Claim C5 fails on the code: the fallback replaces \<open>NaN\<close> and zero only, so the text
  \<open>-5\<close> is stored as \<open>-5\<close>, below the minimum of one that the input element declares.
\<close>

theorem onChange_beatsPerCut_negative:
  "beatsPerCut (onChange_beatsPerCut ''-5'' DEFAULT_SETTINGS) = -5"
  by (simp add: onChange_beatsPerCut_def update_beatsPerCut_def parseInt_def isWhiteSpace_def
      isDigit_def)

subsection \<open>Validation in \<open>handleGenerate\<close>\<close>

text \<open>
  Claim C2. \<open>handleGenerate\<close> issues no upload request exactly when the video list is
  empty or there is no audio file. In that case the state it leaves differs from the
  one it found by one log entry of type error: the process status, the stages, the
  overall progress, the download address and the subscriptions are untouched.
\<close>

theorem handleGenerate_validation:
  "(snd (handleGenerate now w) = None) = (videos w = [] \<or> audio w = None) \<and>
   (videos w = [] \<or> audio w = None \<longrightarrow>
      fst (handleGenerate now w) =
        w\<lparr>logs := logs w @
             [\<lparr>timestamp = formatTime now,
               log_message = (if videos w = [] then msg_need_video else msg_need_audio),
               log_type = LogError\<rparr>]\<rparr>)"
  by (auto simp: handleGenerate_def addLog_def Let_def split: option.split)

theorem handleGenerate_validation_witness:
  "snd (handleGenerate \<lparr>getHours = 9, getMinutes = 5, getSeconds = 31\<rparr> initialApp) = None \<and>
   fst (handleGenerate \<lparr>getHours = 9, getMinutes = 5, getSeconds = 31\<rparr> initialApp) =
     initialApp\<lparr>logs := [\<lparr>timestamp = ''09:05:31'', log_message = msg_need_video, log_type = LogError\<rparr>]\<rparr>"
proof -
  have v: "videos initialApp = []" by (simp add: initialApp_def)
  have l: "logs initialApp = []" by (simp add: initialApp_def)
  have t: "formatTime \<lparr>getHours = 9, getMinutes = 5, getSeconds = 31\<rparr> = ''09:05:31''"
    by (simp add: formatTime_def padStart2_def toString.simps)
  from handleGenerate_validation [of "\<lparr>getHours = 9, getMinutes = 5, getSeconds = 31\<rparr>" initialApp]
  show ?thesis using v l t by simp
qed

subsection \<open>The rounding of doubles\<close>

lemma roundTiesToEven_bounds: "\<lfloor>x\<rfloor> \<le> roundTiesToEven x \<and> roundTiesToEven x \<le> \<lfloor>x\<rfloor> + 1"
  by (simp add: roundTiesToEven_def Let_def)

lemma roundTiesToEven_of_int [simp]: "roundTiesToEven (of_int n) = n"
  by (simp add: roundTiesToEven_def)

lemma roundTiesToEven_mono:
  assumes "x \<le> y"
  shows "roundTiesToEven x \<le> roundTiesToEven y"
proof (cases "\<lfloor>x\<rfloor> = \<lfloor>y\<rfloor>")
  case True
  with assms show ?thesis
    by (auto simp: roundTiesToEven_def Let_def)
next
  case False
  with assms have "\<lfloor>x\<rfloor> + 1 \<le> \<lfloor>y\<rfloor>"
    using floor_mono [of x y] by linarith
  with roundTiesToEven_bounds [of x] roundTiesToEven_bounds [of y] show ?thesis
    by linarith
qed

lemma roundTiesToEven_ge: "of_int m \<le> x \<Longrightarrow> m \<le> roundTiesToEven x"
  using roundTiesToEven_mono [of "of_int m" x] by simp

lemma roundTiesToEven_le: "x \<le> of_int m \<Longrightarrow> roundTiesToEven x \<le> m"
  using roundTiesToEven_mono [of x "of_int m"] by simp

text \<open>The search upwards.\<close>

lemma quantumUp_ge: "0 < q \<Longrightarrow> q \<le> quantumUp n q x"
proof (induction n arbitrary: q)
  case 0
  then show ?case by simp
next
  case (Suc n)
  have "2 * q \<le> quantumUp n (2 * q) x" using Suc.prems by (intro Suc.IH) simp
  with Suc.prems show ?case by simp
qed

lemma quantumUp_le: "0 < q \<Longrightarrow> quantumUp n q x \<le> 2 ^ n * q"
proof (induction n arbitrary: q)
  case 0
  then show ?case by simp
next
  case (Suc n)
  have "quantumUp n (2 * q) x \<le> 2 ^ n * (2 * q)" using Suc.prems by (intro Suc.IH) simp
  moreover have "(1::rat) \<le> 2 ^ Suc n" by (rule one_le_power) simp
  then have "q \<le> 2 ^ Suc n * q" using Suc.prems by simp
  ultimately show ?case by simp
qed

lemma quantumUp_lower: "0 < q \<Longrightarrow> 2 ^ 52 * q \<le> x \<Longrightarrow> 2 ^ 52 * quantumUp n q x \<le> x"
proof (induction n arbitrary: q)
  case 0
  then show ?case by simp
next
  case (Suc n)
  show ?case
  proof (cases "x < 2 ^ 53 * q")
    case True
    with Suc.prems show ?thesis by simp
  next
    case False
    then have "2 ^ 52 * (2 * q) \<le> x" by simp
    then have "2 ^ 52 * quantumUp n (2 * q) x \<le> x" using Suc.prems by (intro Suc.IH) simp_all
    with False show ?thesis by simp
  qed
qed

lemma quantumUp_upper:
  "0 < q \<Longrightarrow> x < 2 ^ 53 * quantumUp n q x \<or> quantumUp n q x = 2 ^ n * q"
proof (induction n arbitrary: q)
  case 0
  then show ?case by simp
next
  case (Suc n)
  show ?case
  proof (cases "x < 2 ^ 53 * q")
    case True
    then show ?thesis by simp
  next
    case False
    have "x < 2 ^ 53 * quantumUp n (2 * q) x \<or> quantumUp n (2 * q) x = 2 ^ n * (2 * q)"
      using Suc.prems by (intro Suc.IH) simp
    with False show ?thesis by (auto simp: mult_ac)
  qed
qed

lemma quantumUp_mono: "0 < q \<Longrightarrow> x \<le> y \<Longrightarrow> quantumUp n q x \<le> quantumUp n q y"
proof (induction n arbitrary: q)
  case 0
  then show ?case by simp
next
  case (Suc n)
  show ?case
  proof (cases "x < 2 ^ 53 * q")
    case True
    have "q \<le> quantumUp (Suc n) q y" using Suc.prems(1) by (rule quantumUp_ge)
    with True show ?thesis by simp
  next
    case False
    with Suc.prems have y: "\<not> y < 2 ^ 53 * q" by linarith
    have "quantumUp n (2 * q) x \<le> quantumUp n (2 * q) y"
      using Suc.prems by (intro Suc.IH) simp_all
    with False y show ?thesis by simp
  qed
qed

lemma quantumUp_step:
  "0 < q \<Longrightarrow> x \<le> y \<Longrightarrow> quantumUp n q x \<noteq> quantumUp n q y \<Longrightarrow>
     2 * quantumUp n q x \<le> quantumUp n q y"
proof (induction n arbitrary: q)
  case 0
  then show ?case by simp
next
  case (Suc n)
  show ?case
  proof (cases "x < 2 ^ 53 * q")
    case True
    note x = this
    show ?thesis
    proof (cases "y < 2 ^ 53 * q")
      case True
      with x Suc.prems show ?thesis by simp
    next
      case False
      have "2 * q \<le> quantumUp n (2 * q) y" using Suc.prems(1) by (intro quantumUp_ge) simp
      with x False show ?thesis by simp
    qed
  next
    case False
    with Suc.prems have y: "\<not> y < 2 ^ 53 * q" by linarith
    from False y Suc.prems(3) have "quantumUp n (2 * q) x \<noteq> quantumUp n (2 * q) y" by simp
    then have "2 * quantumUp n (2 * q) x \<le> quantumUp n (2 * q) y"
      using Suc.prems by (intro Suc.IH) simp_all
    with False y show ?thesis by simp
  qed
qed

text \<open>The search downwards.\<close>

lemma quantumDown_pos: "0 < q \<Longrightarrow> 0 < quantumDown n q x"
  by (induction n arbitrary: q) simp_all

lemma quantumUp_pos: "0 < q \<Longrightarrow> 0 < quantumUp n q x"
  using quantumUp_ge [of q n x] by linarith

lemma quantumDown_le: "0 < q \<Longrightarrow> quantumDown n q x \<le> q"
proof (induction n arbitrary: q)
  case 0
  then show ?case by simp
next
  case (Suc n)
  have "quantumDown n (q / 2) x \<le> q / 2" using Suc.prems by (intro Suc.IH) simp
  with Suc.prems show ?case by simp
qed

lemma quantumDown_ge: "0 < q \<Longrightarrow> q / 2 ^ n \<le> quantumDown n q x"
proof (induction n arbitrary: q)
  case 0
  then show ?case by simp
next
  case (Suc n)
  have "q / 2 / 2 ^ n \<le> quantumDown n (q / 2) x" using Suc.prems by (intro Suc.IH) simp
  moreover have "(1::rat) \<le> 2 ^ Suc n" by (rule one_le_power) simp
  then have "q / 2 ^ Suc n \<le> q" using Suc.prems by (simp add: field_simps)
  ultimately show ?case by (simp add: field_simps)
qed

lemma quantumDown_upper: "0 < q \<Longrightarrow> x < 2 ^ 53 * q \<Longrightarrow> x < 2 ^ 53 * quantumDown n q x"
proof (induction n arbitrary: q)
  case 0
  then show ?case by simp
next
  case (Suc n)
  show ?case
  proof (cases "2 ^ 52 * q \<le> x")
    case True
    with Suc.prems show ?thesis by simp
  next
    case False
    then have "x < 2 ^ 53 * (q / 2)" by simp
    then have "x < 2 ^ 53 * quantumDown n (q / 2) x" using Suc.prems by (intro Suc.IH) simp_all
    with False show ?thesis by simp
  qed
qed

lemma quantumDown_lower:
  "0 < q \<Longrightarrow> 2 ^ 52 * quantumDown n q x \<le> x \<or> quantumDown n q x = q / 2 ^ n"
proof (induction n arbitrary: q)
  case 0
  then show ?case by simp
next
  case (Suc n)
  show ?case
  proof (cases "2 ^ 52 * q \<le> x")
    case True
    then show ?thesis by simp
  next
    case False
    have "2 ^ 52 * quantumDown n (q / 2) x \<le> x \<or> quantumDown n (q / 2) x = q / 2 / 2 ^ n"
      using Suc.prems by (intro Suc.IH) simp
    with False show ?thesis by (simp add: field_simps)
  qed
qed

lemma quantumDown_mono: "0 < q \<Longrightarrow> x \<le> y \<Longrightarrow> quantumDown n q x \<le> quantumDown n q y"
proof (induction n arbitrary: q)
  case 0
  then show ?case by simp
next
  case (Suc n)
  show ?case
  proof (cases "2 ^ 52 * q \<le> x")
    case True
    with Suc.prems show ?thesis by simp
  next
    case False
    note x = this
    show ?thesis
    proof (cases "2 ^ 52 * q \<le> y")
      case True
      have "quantumDown n (q / 2) x \<le> q / 2" using Suc.prems(1) by (intro quantumDown_le) simp
      with x True Suc.prems(1) show ?thesis by simp
    next
      case False
      have "quantumDown n (q / 2) x \<le> quantumDown n (q / 2) y"
        using Suc.prems by (intro Suc.IH) simp_all
      with x False show ?thesis by simp
    qed
  qed
qed

lemma quantumDown_step:
  "0 < q \<Longrightarrow> x \<le> y \<Longrightarrow> quantumDown n q x \<noteq> quantumDown n q y \<Longrightarrow>
     2 * quantumDown n q x \<le> quantumDown n q y"
proof (induction n arbitrary: q)
  case 0
  then show ?case by simp
next
  case (Suc n)
  show ?case
  proof (cases "2 ^ 52 * q \<le> x")
    case True
    with Suc.prems show ?thesis by simp
  next
    case False
    note x = this
    show ?thesis
    proof (cases "2 ^ 52 * q \<le> y")
      case True
      have "quantumDown n (q / 2) x \<le> q / 2" using Suc.prems(1) by (intro quantumDown_le) simp
      with x True show ?thesis by simp
    next
      case False
      with x Suc.prems(3) have "quantumDown n (q / 2) x \<noteq> quantumDown n (q / 2) y" by simp
      then have "2 * quantumDown n (q / 2) x \<le> quantumDown n (q / 2) y"
        using Suc.prems by (intro Suc.IH) simp_all
      with x False show ?thesis by simp
    qed
  qed
qed

text \<open>The quantum of a value.\<close>

lemma quantum_pos: "0 < quantum x"
  by (simp add: quantum_def quantumUp_pos quantumDown_pos)

lemma quantumDown_below_one:
  assumes "x < 1"
  shows "2 * quantumDown 1022 (1 / 2 ^ 52) x \<le> 1 / 2 ^ 52"
proof -
  have s: "(1022::nat) = Suc 1021" by simp
  from assms have n: "\<not> 2 ^ 52 * (1 / 2 ^ 52) \<le> x" by simp
  have "quantumDown 1022 (1 / 2 ^ 52) x = quantumDown 1021 (1 / 2 ^ 52 / 2) x"
    unfolding s quantumDown.simps using n by simp
  moreover have "quantumDown 1021 (1 / 2 ^ 52 / 2) x \<le> 1 / 2 ^ 52 / 2"
    by (rule quantumDown_le) simp
  ultimately show ?thesis by simp
qed

lemma quantum_mono: "x \<le> y \<Longrightarrow> quantum x \<le> quantum y"
proof -
  assume xy: "x \<le> y"
  show ?thesis
  proof (cases "1 \<le> x")
    case True
    with xy have "1 \<le> y" by simp
    with True xy show ?thesis by (simp add: quantum_def quantumUp_mono)
  next
    case False
    note x = this
    show ?thesis
    proof (cases "1 \<le> y")
      case True
      have "quantumDown 1022 (1 / 2 ^ 52) x \<le> 1 / 2 ^ 52" by (rule quantumDown_le) simp
      moreover have "1 / 2 ^ 52 \<le> quantumUp 1023 (1 / 2 ^ 52) y" by (rule quantumUp_ge) simp
      ultimately show ?thesis using x True by (simp add: quantum_def)
    next
      case False
      with x xy show ?thesis by (simp add: quantum_def quantumDown_mono)
    qed
  qed
qed

lemma quantum_step:
  assumes "x \<le> y" "quantum x \<noteq> quantum y"
  shows "2 * quantum x \<le> quantum y"
proof (cases "1 \<le> x")
  case True
  with assms(1) have y: "1 \<le> y" by simp
  from True y assms(2)
  have "quantumUp 1023 (1 / 2 ^ 52) x \<noteq> quantumUp 1023 (1 / 2 ^ 52) y"
    by (simp add: quantum_def)
  then have "2 * quantumUp 1023 (1 / 2 ^ 52) x \<le> quantumUp 1023 (1 / 2 ^ 52) y"
    using assms(1) by (intro quantumUp_step) simp_all
  with True y show ?thesis by (simp add: quantum_def)
next
  case False
  note x = this
  show ?thesis
  proof (cases "1 \<le> y")
    case True
    from x have "2 * quantumDown 1022 (1 / 2 ^ 52) x \<le> 1 / 2 ^ 52"
      by (intro quantumDown_below_one) simp
    moreover have "1 / 2 ^ 52 \<le> quantumUp 1023 (1 / 2 ^ 52) y" by (rule quantumUp_ge) simp
    ultimately show ?thesis using x True by (simp add: quantum_def)
  next
    case False
    with x assms(2)
    have "quantumDown 1022 (1 / 2 ^ 52) x \<noteq> quantumDown 1022 (1 / 2 ^ 52) y"
      by (simp add: quantum_def)
    then have "2 * quantumDown 1022 (1 / 2 ^ 52) x \<le> quantumDown 1022 (1 / 2 ^ 52) y"
      using assms(1) by (intro quantumDown_step) simp_all
    with x False show ?thesis by (simp add: quantum_def)
  qed
qed

lemma quantum_largest: "quantum x \<le> 2 ^ 1023 * (1 / 2 ^ 52)"
proof (cases "1 \<le> x")
  case True
  have "quantumUp 1023 (1 / 2 ^ 52) x \<le> 2 ^ 1023 * (1 / 2 ^ 52)" by (rule quantumUp_le) simp
  with True show ?thesis by (simp only: quantum_def if_True)
next
  case False
  have "quantumDown 1022 (1 / 2 ^ 52) x \<le> 1 / 2 ^ 52" by (rule quantumDown_le) simp
  moreover have "(1::rat) \<le> 2 ^ 1023" by (rule one_le_power) simp
  then have "(1::rat) / 2 ^ 52 \<le> 2 ^ 1023 * (1 / 2 ^ 52)" by (simp add: field_simps)
  ultimately show ?thesis using False by (simp only: quantum_def if_False; linarith?)
qed

lemma quantum_smallest: "1 / 2 ^ 52 / 2 ^ 1022 \<le> quantum x"
proof (cases "1 \<le> x")
  case True
  have "1 / 2 ^ 52 \<le> quantumUp 1023 (1 / 2 ^ 52) x" by (rule quantumUp_ge) simp
  moreover have "(1::rat) \<le> 2 ^ 1022" by (rule one_le_power) simp
  then have "(1::rat) / 2 ^ 52 / 2 ^ 1022 \<le> 1 / 2 ^ 52" by (simp add: field_simps)
  ultimately show ?thesis using True by (simp only: quantum_def if_True; linarith?)
next
  case False
  have "1 / 2 ^ 52 / 2 ^ 1022 \<le> quantumDown 1022 (1 / 2 ^ 52) x" by (rule quantumDown_ge) simp
  with False show ?thesis by (simp only: quantum_def if_False)
qed

lemma quantum_upper: "x < 2 ^ 53 * quantum x \<or> quantum x = 2 ^ 1023 * (1 / 2 ^ 52)"
proof (cases "1 \<le> x")
  case True
  have "x < 2 ^ 53 * quantumUp 1023 (1 / 2 ^ 52) x
      \<or> quantumUp 1023 (1 / 2 ^ 52) x = 2 ^ 1023 * (1 / 2 ^ 52)"
    by (rule quantumUp_upper) simp
  with True show ?thesis by (simp only: quantum_def if_True)
next
  case False
  then have "x < 2 ^ 53 * (1 / 2 ^ 52)" by simp
  then have "x < 2 ^ 53 * quantumDown 1022 (1 / 2 ^ 52) x"
    by (intro quantumDown_upper) simp_all
  with False show ?thesis by (simp only: quantum_def if_False simp_thms)
qed

lemma quantum_lower: "2 ^ 52 * quantum x \<le> x \<or> quantum x = 1 / 2 ^ 52 / 2 ^ 1022"
proof (cases "1 \<le> x")
  case True
  then have "2 ^ 52 * (1 / 2 ^ 52) \<le> x" by simp
  then have "2 ^ 52 * quantumUp 1023 (1 / 2 ^ 52) x \<le> x"
    by (intro quantumUp_lower) simp_all
  with True show ?thesis by (simp only: quantum_def if_True simp_thms)
next
  case False
  have "2 ^ 52 * quantumDown 1022 (1 / 2 ^ 52) x \<le> x
      \<or> quantumDown 1022 (1 / 2 ^ 52) x = 1 / 2 ^ 52 / 2 ^ 1022"
    by (rule quantumDown_lower) simp
  with False show ?thesis by (simp only: quantum_def if_False)
qed

text \<open>Rounding to a double keeps the order of the values that are not negative.\<close>

lemma binary64_nonneg: "0 \<le> x \<Longrightarrow> binary64 x = quantum x * of_int (roundTiesToEven (x / quantum x))"
  by (simp add: binary64_def)

lemma binary64_mono:
  assumes "0 \<le> x" "x \<le> y"
  shows "binary64 x \<le> binary64 y"
proof -
  let ?qx = "quantum x" and ?qy = "quantum y"
  have px: "0 < ?qx" and py: "0 < ?qy" by (rule quantum_pos)+
  from assms have y0: "0 \<le> y" by simp
  show ?thesis
  proof (cases "?qx = ?qy")
    case True
    from assms(2) py have "x / ?qy \<le> y / ?qy" by (simp add: divide_right_mono)
    then have "roundTiesToEven (x / ?qy) \<le> roundTiesToEven (y / ?qy)"
      by (rule roundTiesToEven_mono)
    then have "(of_int (roundTiesToEven (x / ?qy)) :: rat) \<le> of_int (roundTiesToEven (y / ?qy))"
      by simp
    with py have "?qy * of_int (roundTiesToEven (x / ?qy)) \<le> ?qy * of_int (roundTiesToEven (y / ?qy))"
      by (simp add: mult_left_mono)
    with True assms(1) y0 show ?thesis by (simp add: binary64_nonneg)
  next
    case False
    with assms(2) have step: "2 * ?qx \<le> ?qy" by (intro quantum_step)
    have "x < 2 ^ 53 * ?qx"
    proof (rule ccontr)
      assume "\<not> x < 2 ^ 53 * ?qx"
      with quantum_upper [of x] have "?qx = 2 ^ 1023 * (1 / 2 ^ 52)" by blast
      with quantum_largest [of y] have "?qy \<le> ?qx" by simp
      with step px show False by linarith
    qed
    with px have "x / ?qx \<le> of_int (2 ^ 53)" by (simp add: field_simps)
    then have "roundTiesToEven (x / ?qx) \<le> 2 ^ 53" by (rule roundTiesToEven_le)
    then have "(of_int (roundTiesToEven (x / ?qx)) :: rat) \<le> 2 ^ 53"
      by (metis of_int_le_iff of_int_numeral of_int_power)
    with px have a: "?qx * of_int (roundTiesToEven (x / ?qx)) \<le> ?qx * 2 ^ 53"
      by (simp add: mult_left_mono)
    have "2 ^ 52 * ?qy \<le> y"
    proof (rule ccontr)
      assume "\<not> 2 ^ 52 * ?qy \<le> y"
      with quantum_lower [of y] have "?qy = 1 / 2 ^ 52 / 2 ^ 1022" by blast
      with quantum_smallest [of x] have "?qy \<le> ?qx" by simp
      with step px show False by linarith
    qed
    with py have "of_int (2 ^ 52) \<le> y / ?qy" by (simp add: field_simps)
    then have "2 ^ 52 \<le> roundTiesToEven (y / ?qy)" by (rule roundTiesToEven_ge)
    then have "(2 ^ 52 :: rat) \<le> of_int (roundTiesToEven (y / ?qy))"
      by (metis of_int_le_iff of_int_numeral of_int_power)
    with py have b: "?qy * 2 ^ 52 \<le> ?qy * of_int (roundTiesToEven (y / ?qy))"
      by (simp add: mult_left_mono)
    from step have "?qx * 2 ^ 53 \<le> ?qy * 2 ^ 52" by simp
    with a b have "?qx * of_int (roundTiesToEven (x / ?qx)) \<le> ?qy * of_int (roundTiesToEven (y / ?qy))"
      by linarith
    with assms(1) y0 show ?thesis by (simp add: binary64_nonneg)
  qed
qed

text \<open>The integers of the weight table, zero and one are doubles.\<close>

lemma binary64_zero: "binary64 0 = 0"
  using roundTiesToEven_of_int [of 0] by (simp add: binary64_def)

lemma binary64_integers:
  "binary64 1 = 1" "binary64 10 = 10" "binary64 15 = 15" "binary64 20 = 20" "binary64 30 = 30"
  "binary64 45 = 45" "binary64 90 = 90" "binary64 100 = 100"
  by code_simp+

lemma binary64_exact:
  "\<forall>n \<in> set [0, 1, 10, 15, 20, 30, 45, 90, 100]. binary64 (of_int n) = of_int n"
  by (simp add: binary64_zero binary64_integers)

subsection \<open>What the callbacks of the application leave alone\<close>

lemma addLog_frame [simp]:
  "videos (addLog now m t w) = videos w" "audio (addLog now m t w) = audio w"
  "subtitle (addLog now m t w) = subtitle w" "settings (addLog now m t w) = settings w"
  "processStatus (addLog now m t w) = processStatus w" "stages (addLog now m t w) = stages w"
  "overallProgress (addLog now m t w) = overallProgress w"
  "downloadUrl (addLog now m t w) = downloadUrl w" "unsubRef (addLog now m t w) = unsubRef w"
  "subscriptions (addLog now m t w) = subscriptions w"
  by (simp_all add: addLog_def)

lemma updateStage_frame [simp]:
  "videos (updateStage sid st p w) = videos w" "audio (updateStage sid st p w) = audio w"
  "subtitle (updateStage sid st p w) = subtitle w" "settings (updateStage sid st p w) = settings w"
  "processStatus (updateStage sid st p w) = processStatus w"
  "logs (updateStage sid st p w) = logs w"
  "overallProgress (updateStage sid st p w) = overallProgress w"
  "downloadUrl (updateStage sid st p w) = downloadUrl w"
  "unsubRef (updateStage sid st p w) = unsubRef w"
  "subscriptions (updateStage sid st p w) = subscriptions w"
  by (simp_all add: updateStage_def)

lemma set_lastStage_frame [simp]:
  "videos (set_lastStage i v w) = videos w" "audio (set_lastStage i v w) = audio w"
  "subtitle (set_lastStage i v w) = subtitle w" "settings (set_lastStage i v w) = settings w"
  "processStatus (set_lastStage i v w) = processStatus w" "stages (set_lastStage i v w) = stages w"
  "logs (set_lastStage i v w) = logs w"
  "overallProgress (set_lastStage i v w) = overallProgress w"
  "downloadUrl (set_lastStage i v w) = downloadUrl w"
  "unsubRef (set_lastStage i v w) = unsubRef w"
  "length (subscriptions (set_lastStage i v w)) = length (subscriptions w)"
  by (simp_all add: set_lastStage_def)

lemma set_lastStage_nth [simp]:
  "j < length (subscriptions w) \<Longrightarrow>
     eventSource (subscriptions (set_lastStage i v w) ! j) = eventSource (subscriptions w ! j) \<and>
     sub_taskId (subscriptions (set_lastStage i v w) ! j) = sub_taskId (subscriptions w ! j)"
  by (cases "i = j") (simp_all add: set_lastStage_def)

lemma stages_updateStage:
  "stages (updateStage sid st p w) =
     map (\<lambda>s. if stage_id s = sid then s\<lparr>status := st, progress := p\<rparr> else s) (stages w)"
  by (simp add: updateStage_def)

lemma stage_ids_updateStage [simp]:
  "map stage_id (stages (updateStage sid st p w)) = map stage_id (stages w)"
  by (simp add: updateStage_def comp_def)

text \<open>The state after \<open>onEvent\<close>, field by field.\<close>

lemma onEvent_frame [simp]:
  "videos (handleGenerate_onEvent rd i now e w) = videos w"
  "audio (handleGenerate_onEvent rd i now e w) = audio w"
  "subtitle (handleGenerate_onEvent rd i now e w) = subtitle w"
  "settings (handleGenerate_onEvent rd i now e w) = settings w"
  "processStatus (handleGenerate_onEvent rd i now e w) = processStatus w"
  "downloadUrl (handleGenerate_onEvent rd i now e w) = downloadUrl w"
  "unsubRef (handleGenerate_onEvent rd i now e w) = unsubRef w"
  "length (subscriptions (handleGenerate_onEvent rd i now e w)) = length (subscriptions w)"
  by (simp_all add: handleGenerate_onEvent_def Let_def split: option.split prod.split)

lemma onEvent_nth [simp]:
  "j < length (subscriptions w) \<Longrightarrow>
     eventSource (subscriptions (handleGenerate_onEvent rd i now e w) ! j)
       = eventSource (subscriptions w ! j) \<and>
     sub_taskId (subscriptions (handleGenerate_onEvent rd i now e w) ! j)
       = sub_taskId (subscriptions w ! j)"
  by (simp add: handleGenerate_onEvent_def Let_def split: option.split prod.split)

lemma onEvent_stage_ids [simp]:
  "map stage_id (stages (handleGenerate_onEvent rd i now e w)) = map stage_id (stages w)"
  by (simp add: handleGenerate_onEvent_def Let_def split: option.split prod.split)

lemma onDone_frame [simp]:
  "videos (handleGenerate_onDone i now w) = videos w"
  "audio (handleGenerate_onDone i now w) = audio w"
  "subtitle (handleGenerate_onDone i now w) = subtitle w"
  "settings (handleGenerate_onDone i now w) = settings w"
  "processStatus (handleGenerate_onDone i now w) = Completed"
  "overallProgress (handleGenerate_onDone i now w) = 100"
  "downloadUrl (handleGenerate_onDone i now w)
     = Some (getDownloadUrl (sub_taskId (subscriptions w ! i)))"
  "unsubRef (handleGenerate_onDone i now w) = unsubRef w"
  "subscriptions (handleGenerate_onDone i now w) = subscriptions w"
  "stages (handleGenerate_onDone i now w)
     = map (\<lambda>s. s\<lparr>status := StageCompleted, progress := 100\<rparr>) (stages w)"
  by (simp_all add: handleGenerate_onDone_def Let_def)

lemma onError_frame [simp]:
  "videos (handleGenerate_onError now err w) = videos w"
  "audio (handleGenerate_onError now err w) = audio w"
  "subtitle (handleGenerate_onError now err w) = subtitle w"
  "settings (handleGenerate_onError now err w) = settings w"
  "processStatus (handleGenerate_onError now err w) = Error"
  "stages (handleGenerate_onError now err w) = stages w"
  "overallProgress (handleGenerate_onError now err w) = overallProgress w"
  "downloadUrl (handleGenerate_onError now err w) = downloadUrl w"
  "unsubRef (handleGenerate_onError now err w) = unsubRef w"
  "subscriptions (handleGenerate_onError now err w) = subscriptions w"
  "logs (handleGenerate_onError now err w) =
     logs w @ [\<lparr>timestamp = formatTime now, log_message = msg_processing_failed @ err,
               log_type = LogError\<rparr>]"
  by (simp_all add: handleGenerate_onError_def addLog_def)

lemma catchBlock_frame [simp]:
  "videos (catchBlock now err w) = videos w" "audio (catchBlock now err w) = audio w"
  "subtitle (catchBlock now err w) = subtitle w" "settings (catchBlock now err w) = settings w"
  "processStatus (catchBlock now err w) = Error" "stages (catchBlock now err w) = stages w"
  "overallProgress (catchBlock now err w) = overallProgress w"
  "downloadUrl (catchBlock now err w) = downloadUrl w"
  "unsubRef (catchBlock now err w) = unsubRef w"
  "subscriptions (catchBlock now err w) = subscriptions w"
  by (simp_all add: catchBlock_def addLog_def)

subsection \<open>Delivery to a subscription of the application\<close>

lemma unsubscribe_frame [simp]:
  "videos (unsubscribe i w) = videos w" "audio (unsubscribe i w) = audio w"
  "subtitle (unsubscribe i w) = subtitle w" "settings (unsubscribe i w) = settings w"
  "processStatus (unsubscribe i w) = processStatus w" "stages (unsubscribe i w) = stages w"
  "logs (unsubscribe i w) = logs w" "overallProgress (unsubscribe i w) = overallProgress w"
  "downloadUrl (unsubscribe i w) = downloadUrl w" "unsubRef (unsubscribe i w) = unsubRef w"
  "length (subscriptions (unsubscribe i w)) = length (subscriptions w)"
  by (simp_all add: unsubscribe_def)

lemma unsubscribe_closed [simp]:
  "i < length (subscriptions w) \<Longrightarrow> closed (eventSource (subscriptions (unsubscribe i w) ! i))"
  by (simp add: unsubscribe_def close_def)

lemma unsubscribe_taskId [simp]:
  "j < length (subscriptions w) \<Longrightarrow>
     sub_taskId (subscriptions (unsubscribe i w) ! j) = sub_taskId (subscriptions w ! j)"
  by (cases "i = j") (simp_all add: unsubscribe_def)

lemma deliver_ignored:
  "\<not> i < length (subscriptions w) \<or> closed (eventSource (subscriptions w ! i)) \<Longrightarrow>
     deliver rd i now ev w = w"
  by (auto simp: deliver_def dispatchEvent_def)

lemma write_back_same:
  "i < length (subscriptions w) \<Longrightarrow> eventSource (subscriptions w ! i) = es \<Longrightarrow>
     w\<lparr>subscriptions := (subscriptions w)[i := (subscriptions w ! i)\<lparr>eventSource := es\<rparr>]\<rparr> = w"
  by (auto simp: list_update_same_conv)

lemma deliver_not_terminal:
  assumes "i < length (subscriptions w)" "\<not> closed (eventSource (subscriptions w ! i))"
    "\<not> terminal ev"
  shows "deliver rd i now ev w = notify (handleGenerate_onEvent rd i now) ev w"
proof (cases ev rule: terminal.cases)
  case 1
  with assms show ?thesis by simp
next
  case 2
  with assms show ?thesis
    by (simp add: deliver_def dispatchEvent_def onmessage_def write_back_same)
next
  case (3 data)
  with assms have "stage data \<noteq> ''end''" "stage data \<noteq> ''error''" by simp_all
  with assms 3 show ?thesis
    by (simp add: deliver_def dispatchEvent_def onmessage_def write_back_same)
qed

lemma deliver_terminal:
  assumes "i < length (subscriptions w)" "\<not> closed (eventSource (subscriptions w ! i))"
    "terminal ev"
  shows "deliver rd i now ev w =
    unsubscribe i (finish (handleGenerate_onDone i now) (handleGenerate_onError now) ev w)"
  using assms
  by (cases ev rule: terminal.cases)
    (auto simp: deliver_def dispatchEvent_def onmessage_def onerror_def unsubscribe_def)

lemma run_ignored:
  "\<not> i < length (subscriptions w) \<or> closed (eventSource (subscriptions w ! i)) \<Longrightarrow>
     run rd i evs w = w"
  by (induction evs) (auto simp: deliver_ignored)

lemma deliver_error_event:
  assumes "i < length (subscriptions w)" "\<not> closed (eventSource (subscriptions w ! i))"
    "stage d = ''error''"
  shows "deliver rd i now (MessageEvent (Some d)) w
    = unsubscribe i (handleGenerate_onError now (message d) w)"
  using assms by (simp add: deliver_terminal)

lemma deliver_end_event:
  assumes "i < length (subscriptions w)" "\<not> closed (eventSource (subscriptions w ! i))"
    "stage d = ''end''"
  shows "deliver rd i now (MessageEvent (Some d)) w = unsubscribe i (handleGenerate_onDone i now w)"
  using assms by (simp add: deliver_terminal)

lemma deliver_connection_error:
  assumes "i < length (subscriptions w)" "\<not> closed (eventSource (subscriptions w ! i))"
  shows "deliver rd i now ErrorEvent w
    = unsubscribe i (handleGenerate_onError now msg_sse_interrupted w)"
  using assms by (simp add: deliver_terminal)

lemma run_after_unsubscribe:
  "i < length (subscriptions w) \<Longrightarrow> run rd i evs (unsubscribe i w) = unsubscribe i w"
  by (rule run_ignored) simp

subsection \<open>The reset at the start of a run\<close>

lemma resetProgress_frame:
  "videos (resetProgress w) = videos w" "audio (resetProgress w) = audio w"
  "subtitle (resetProgress w) = subtitle w" "settings (resetProgress w) = settings w"
  "unsubRef (resetProgress w) = unsubRef w" "subscriptions (resetProgress w) = subscriptions w"
  by (simp_all add: resetProgress_def)

lemma closePrevious_frame:
  "videos (closePrevious w) = videos w" "audio (closePrevious w) = audio w"
  "subtitle (closePrevious w) = subtitle w" "settings (closePrevious w) = settings w"
  "unsubRef (closePrevious w) = None"
  by (simp_all add: closePrevious_def unsubscribe_def split: option.split)

lemma closePrevious_closes:
  "unsubRef w = Some i \<Longrightarrow> i < length (subscriptions w) \<Longrightarrow>
     closed (eventSource (subscriptions (closePrevious w) ! i))"
  by (simp add: closePrevious_def unsubscribe_def close_def)

text \<open>
  Claim C10. When the checks pass, \<open>handleGenerate\<close> first closes the source behind
  the stored unsubscribe function and forgets it, then resets the progress state:
  status processing, the five initial stages, no log entry, overall progress 0, no
  download address. Only then does it mark the upload stage as running and write
  the first log entry. Neither the reset nor the whole first part changes the
  videos, the audio file, the subtitle file or the settings.
\<close>

theorem handleGenerate_resets_progress:
  "videos w \<noteq> [] \<Longrightarrow> audio w \<noteq> None \<Longrightarrow>
     fst (handleGenerate now w) =
       addLog now msg_uploading LogInfo
         (updateStage ''upload'' StageRunning 0 (resetProgress (closePrevious w))) \<and>
     processStatus (resetProgress (closePrevious w)) = Processing \<and>
     stages (resetProgress (closePrevious w)) = INITIAL_STAGES \<and>
     logs (resetProgress (closePrevious w)) = [] \<and>
     overallProgress (resetProgress (closePrevious w)) = 0 \<and>
     downloadUrl (resetProgress (closePrevious w)) = None \<and>
     unsubRef (resetProgress (closePrevious w)) = None \<and>
     (unsubRef w = Some i \<and> i < length (subscriptions w) \<longrightarrow>
        closed (eventSource (subscriptions (resetProgress (closePrevious w)) ! i))) \<and>
     videos (resetProgress (closePrevious w)) = videos w \<and>
     audio (resetProgress (closePrevious w)) = audio w \<and>
     subtitle (resetProgress (closePrevious w)) = subtitle w \<and>
     settings (resetProgress (closePrevious w)) = settings w \<and>
     videos (fst (handleGenerate now w)) = videos w \<and>
     audio (fst (handleGenerate now w)) = audio w \<and>
     subtitle (fst (handleGenerate now w)) = subtitle w \<and>
     settings (fst (handleGenerate now w)) = settings w"
proof -
  assume v: "videos w \<noteq> []" and a: "audio w \<noteq> None"
  then have h: "fst (handleGenerate now w) =
       addLog now msg_uploading LogInfo
         (updateStage ''upload'' StageRunning 0 (resetProgress (closePrevious w)))"
    by (auto simp: handleGenerate_def Let_def)
  have r: "processStatus (resetProgress (closePrevious w)) = Processing"
    "stages (resetProgress (closePrevious w)) = INITIAL_STAGES"
    "logs (resetProgress (closePrevious w)) = []"
    "overallProgress (resetProgress (closePrevious w)) = 0"
    "downloadUrl (resetProgress (closePrevious w)) = None"
    by (simp_all add: resetProgress_def)
  show ?thesis
    unfolding h
    by (simp add: r resetProgress_frame closePrevious_frame closePrevious_closes)
qed

theorem handleGenerate_resets_progress_witness:
  "videos subscribedApp \<noteq> [] \<and> audio subscribedApp \<noteq> None \<and>
   unsubRef subscribedApp = Some 0 \<and> 0 < length (subscriptions subscribedApp) \<and>
   \<not> closed (eventSource (subscriptions subscribedApp ! 0)) \<and>
   closed (eventSource (subscriptions (resetProgress (closePrevious subscribedApp)) ! 0)) \<and>
   stages (resetProgress (closePrevious subscribedApp)) = INITIAL_STAGES \<and>
   overallProgress (resetProgress (closePrevious subscribedApp)) = 0 \<and>
   videos (fst (handleGenerate sampleDate subscribedApp)) = videos subscribedApp"
proof -
  have v: "videos subscribedApp \<noteq> []" by (simp add: subscribedApp_def)
  have a: "audio subscribedApp \<noteq> None" by (simp add: subscribedApp_def)
  have u: "unsubRef subscribedApp = Some 0 \<and> 0 < length (subscriptions subscribedApp)"
    by (simp add: subscribedApp_def)
  have c: "\<not> closed (eventSource (subscriptions subscribedApp ! 0))"
    by (simp add: subscribedApp_def subscribeProgress_def)
  note t = handleGenerate_resets_progress [OF v a, of sampleDate 0]
  from t u have 1: "closed (eventSource (subscriptions (resetProgress
      (closePrevious subscribedApp)) ! 0))"
    by blast
  from t have 2: "stages (resetProgress (closePrevious subscribedApp)) = INITIAL_STAGES \<and>
      overallProgress (resetProgress (closePrevious subscribedApp)) = 0 \<and>
      videos (fst (handleGenerate sampleDate subscribedApp)) = videos subscribedApp"
    by blast
  from v a u c 1 2 show ?thesis by blast
qed

subsection \<open>Stages\<close>

lemma stageCompleted_stages: "stages w' = stages w \<Longrightarrow> stageCompleted sid w' = stageCompleted sid w"
  by (simp add: stageCompleted_def)

lemma stageCompleted_updateStage_same_aux:
  "list_all (\<lambda>s. if stage_id s = sid then status s = StageCompleted \<and> progress s = 100 else True)
     (map (\<lambda>s. if stage_id s = sid then s\<lparr>status := StageCompleted, progress := 100\<rparr> else s) ss)"
  by (induction ss) simp_all

lemma stageCompleted_updateStage_same [simp]:
  "stageCompleted sid (updateStage sid StageCompleted 100 w)"
  by (simp add: stageCompleted_def updateStage_def stageCompleted_updateStage_same_aux)

lemma stageCompleted_updateStage_other_aux:
  "sid' \<noteq> sid \<Longrightarrow>
     list_all (\<lambda>s. if stage_id s = sid then status s = StageCompleted \<and> progress s = 100 else True)
       (map (\<lambda>s. if stage_id s = sid' then s\<lparr>status := st, progress := p\<rparr> else s) ss)
     = list_all (\<lambda>s. if stage_id s = sid then status s = StageCompleted \<and> progress s = 100 else True) ss"
  by (induction ss) auto

lemma stageCompleted_updateStage_other [simp]:
  "sid' \<noteq> sid \<Longrightarrow> stageCompleted sid (updateStage sid' st p w) = stageCompleted sid w"
  by (simp add: stageCompleted_def updateStage_def stageCompleted_updateStage_other_aux)

lemma stageCompleted_simple [simp]:
  "stageCompleted sid (addLog now m t w) = stageCompleted sid w"
  "stageCompleted sid (set_lastStage i v w) = stageCompleted sid w"
  "stageCompleted sid (w\<lparr>overallProgress := n\<rparr>) = stageCompleted sid w"
  "stageCompleted sid (unsubscribe i w) = stageCompleted sid w"
  "stageCompleted sid (handleGenerate_onError now err w) = stageCompleted sid w"
  by (simp_all add: stageCompleted_def)

lemma stageCompleted_onDone [simp]: "stageCompleted sid (handleGenerate_onDone i now w)"
  by (simp add: stageCompleted_def list_all_iff)

lemma onEvent_stages:
  "stages (handleGenerate_onEvent rd i now e w) =
     (let previous = lastStage (subscriptions w ! i);
          w1 = (if stage e \<noteq> previous \<and> previous \<noteq> ''''
                then updateStage previous StageCompleted 100 w else w)
      in if stage e = ''done'' then stages w1
         else stages (updateStage (stage e) StageRunning (percent e) w1))"
  by (simp add: handleGenerate_onEvent_def Let_def stages_updateStage
      split: option.split prod.split)

lemma stageCompleted_onEvent:
  "stageCompleted sid (handleGenerate_onEvent rd i now e w) =
     (let previous = lastStage (subscriptions w ! i);
          w1 = (if stage e \<noteq> previous \<and> previous \<noteq> ''''
                then updateStage previous StageCompleted 100 w else w)
      in if stage e = ''done'' then stageCompleted sid w1
         else stageCompleted sid (updateStage (stage e) StageRunning (percent e) w1))"
  unfolding stageCompleted_def onEvent_stages Let_def by simp

lemma onEvent_completes_previous:
  assumes "lastStage (subscriptions w ! i) \<noteq> ''''" "stage e \<noteq> lastStage (subscriptions w ! i)"
  shows "stageCompleted (lastStage (subscriptions w ! i)) (handleGenerate_onEvent rd i now e w)"
  unfolding stageCompleted_onEvent Let_def using assms by simp

lemma onEvent_keeps_completed:
  assumes "stageCompleted sid w" "stage e \<noteq> sid"
  shows "stageCompleted sid (handleGenerate_onEvent rd i now e w)"
proof -
  define w1 where "w1 =
    (if stage e \<noteq> lastStage (subscriptions w ! i) \<and> lastStage (subscriptions w ! i) \<noteq> ''''
     then updateStage (lastStage (subscriptions w ! i)) StageCompleted 100 w else w)"
  have 1: "stageCompleted sid w1"
  proof (cases "lastStage (subscriptions w ! i) = sid")
    case True
    with assms(1) show ?thesis unfolding w1_def by auto
  next
    case False
    with assms(1) show ?thesis unfolding w1_def by simp
  qed
  from assms(2) 1 have 2: "stageCompleted sid (updateStage (stage e) StageRunning (percent e) w1)"
    by simp
  have 3: "stageCompleted sid (handleGenerate_onEvent rd i now e w) =
      (if stage e = ''done'' then stageCompleted sid w1
       else stageCompleted sid (updateStage (stage e) StageRunning (percent e) w1))"
    unfolding w1_def by (simp only: stageCompleted_onEvent Let_def)
  from 1 2 show ?thesis unfolding 3 by simp
qed

lemma deliver_keeps_completed:
  assumes "stageCompleted sid w" "otherStage sid ev"
  shows "stageCompleted sid (deliver rd i now ev w)"
proof (cases "i < length (subscriptions w) \<and> \<not> closed (eventSource (subscriptions w ! i))")
  case False
  then have "deliver rd i now ev w = w" by (intro deliver_ignored) auto
  with assms show ?thesis by simp
next
  case True
  show ?thesis
  proof (cases "terminal ev")
    case t: True
    with True have "deliver rd i now ev w =
        unsubscribe i (finish (handleGenerate_onDone i now) (handleGenerate_onError now) ev w)"
      by (simp add: deliver_terminal)
    with assms t show ?thesis
      by (cases ev rule: terminal.cases) simp_all
  next
    case f: False
    with True have "deliver rd i now ev w = notify (handleGenerate_onEvent rd i now) ev w"
      by (simp add: deliver_not_terminal)
    with assms f show ?thesis
      by (cases ev rule: terminal.cases) (simp_all add: onEvent_keeps_completed)
  qed
qed

lemma run_keeps_completed:
  "stageCompleted sid w \<Longrightarrow> list_all (\<lambda>(now, ev). otherStage sid ev) evs \<Longrightarrow>
     stageCompleted sid (run rd i evs w)"
  by (induction evs arbitrary: w) (auto simp: deliver_keeps_completed)

lemma deliver_stage_ids: "map stage_id (stages (deliver rd i now ev w)) = map stage_id (stages w)"
proof (cases "i < length (subscriptions w) \<and> \<not> closed (eventSource (subscriptions w ! i))")
  case False
  then have "deliver rd i now ev w = w" by (intro deliver_ignored) auto
  then show ?thesis by simp
next
  case True
  show ?thesis
  proof (cases "terminal ev")
    case t: True
    with True have "deliver rd i now ev w =
        unsubscribe i (finish (handleGenerate_onDone i now) (handleGenerate_onError now) ev w)"
      by (simp add: deliver_terminal)
    with t show ?thesis
      by (cases ev rule: terminal.cases) (simp_all add: comp_def)
  next
    case f: False
    with True have "deliver rd i now ev w = notify (handleGenerate_onEvent rd i now) ev w"
      by (simp add: deliver_not_terminal)
    with f show ?thesis
      by (cases ev rule: terminal.cases) simp_all
  qed
qed

lemma run_stage_ids: "map stage_id (stages (run rd i evs w)) = map stage_id (stages w)"
  by (induction evs arbitrary: w) (auto simp: deliver_stage_ids)

text \<open>The callback remembers the stage of the event it received.\<close>

lemma onEvent_lastStage:
  "i < length (subscriptions w) \<Longrightarrow>
     lastStage (subscriptions (handleGenerate_onEvent rd i now e w) ! i) = stage e"
  by (simp add: handleGenerate_onEvent_def Let_def set_lastStage_def
      split: option.split prod.split)

lemma onEvent_twice:
  assumes "i < length (subscriptions w)" "stage ea \<noteq> ''''" "stage eb \<noteq> stage ea"
  shows "stageCompleted (stage ea)
    (handleGenerate_onEvent rd i now' eb (handleGenerate_onEvent rd i now ea w))"
proof -
  let ?w1 = "handleGenerate_onEvent rd i now ea w"
  from assms(1) have l: "lastStage (subscriptions ?w1 ! i) = stage ea"
    by (rule onEvent_lastStage)
  with assms(2,3) have "lastStage (subscriptions ?w1 ! i) \<noteq> ''''"
    "stage eb \<noteq> lastStage (subscriptions ?w1 ! i)"
    by simp_all
  then have "stageCompleted (lastStage (subscriptions ?w1 ! i))
      (handleGenerate_onEvent rd i now' eb ?w1)"
    by (rule onEvent_completes_previous)
  with l show ?thesis by simp
qed

text \<open>A stream without a terminal event leaves the subscription open.\<close>

lemma run_append: "run rd i (xs @ ys) w = run rd i ys (run rd i xs w)"
  by (induction xs arbitrary: w) auto

lemma outcome_append:
  "outcome (xs @ ys) = StillRunning \<Longrightarrow> outcome xs = StillRunning \<and> outcome ys = StillRunning"
  by (induction xs rule: outcome.induct) (auto split: if_splits)

lemma run_still_open:
  "i < length (subscriptions w) \<Longrightarrow> \<not> closed (eventSource (subscriptions w ! i)) \<Longrightarrow>
   outcome evs = StillRunning \<Longrightarrow>
     i < length (subscriptions (run rd i evs w)) \<and>
     \<not> closed (eventSource (subscriptions (run rd i evs w) ! i))"
proof (induction evs arbitrary: w rule: outcome.induct)
  case 1
  then show ?case by simp
next
  case (2 now evs)
  from "2.prems" have "deliver rd i now (MessageEvent None) w = w"
    by (simp add: deliver_not_terminal)
  with "2.IH" [of w] "2.prems" show ?case by simp
next
  case (3 now d evs)
  from "3.prems"(3) have s: "stage d \<noteq> ''end''" "stage d \<noteq> ''error''"
    and o: "outcome evs = StillRunning"
    by (auto split: if_splits)
  with "3.prems" have d: "deliver rd i now (MessageEvent (Some d)) w
      = handleGenerate_onEvent rd i now d w"
    by (simp add: deliver_not_terminal)
  have "i < length (subscriptions (run rd i evs (handleGenerate_onEvent rd i now d w))) \<and>
      \<not> closed (eventSource
          (subscriptions (run rd i evs (handleGenerate_onEvent rd i now d w)) ! i))"
    using s o "3.prems" by (intro "3.IH") simp_all
  with d show ?case by simp
next
  case (4 now evs)
  then show ?case by simp
qed

lemma run_two_events:
  assumes "i < length (subscriptions w)" "\<not> closed (eventSource (subscriptions w ! i))"
    "outcome (evs @ [(now, MessageEvent (Some ea)), (now', MessageEvent (Some eb))]) = StillRunning"
    "stage ea \<noteq> ''''" "stage eb \<noteq> stage ea"
  shows "stageCompleted (stage ea)
    (run rd i (evs @ [(now, MessageEvent (Some ea)), (now', MessageEvent (Some eb))]) w)"
proof -
  let ?w = "run rd i evs w"
  from assms(3) have o: "outcome evs = StillRunning"
    "outcome [(now, MessageEvent (Some ea)), (now', MessageEvent (Some eb))] = StillRunning"
    using outcome_append by blast+
  from o(2) have s: "stage ea \<noteq> ''end''" "stage ea \<noteq> ''error''" "stage eb \<noteq> ''end''"
    "stage eb \<noteq> ''error''"
    by (auto split: if_splits)
  from run_still_open [OF assms(1,2) o(1)]
  have w: "i < length (subscriptions ?w)" "\<not> closed (eventSource (subscriptions ?w ! i))"
    by simp_all
  with s have 1: "deliver rd i now (MessageEvent (Some ea)) ?w
      = handleGenerate_onEvent rd i now ea ?w"
    by (simp add: deliver_not_terminal)
  from w s have 2: "deliver rd i now' (MessageEvent (Some eb)) (handleGenerate_onEvent rd i now ea ?w)
      = handleGenerate_onEvent rd i now' eb (handleGenerate_onEvent rd i now ea ?w)"
    by (simp add: deliver_not_terminal)
  from w(1) assms(4,5) have "stageCompleted (stage ea)
      (handleGenerate_onEvent rd i now' eb (handleGenerate_onEvent rd i now ea ?w))"
    by (rule onEvent_twice)
  with 1 2 show ?thesis by (simp add: run_append)
qed

lemma deliver_error_stages:
  assumes "i < length (subscriptions w)" "\<not> closed (eventSource (subscriptions w ! i))"
    "stage d = ''error''"
  shows "stages (deliver rd i now (MessageEvent (Some d)) w) = stages w"
  unfolding deliver_error_event [OF assms] by simp

text \<open>Streams of progress events in the order of the pipeline.\<close>

lemma inRange_stage:
  "inRange e \<Longrightarrow>
     stage e = ''whisper'' \<or> stage e = ''beat'' \<or> stage e = ''ffmpeg'' \<or> stage e = ''finalize''"
  by (simp add: inRange_def stageRank_def split: if_splits)

lemma pipelineOrdered_Cons: "pipelineOrdered (e # es) \<Longrightarrow> inRange e \<and> pipelineOrdered es"
  by (cases es) simp_all

lemma pipelineOrdered_inRange: "pipelineOrdered es \<Longrightarrow> x \<in> set es \<Longrightarrow> inRange x"
  by (induction es) (auto dest: pipelineOrdered_Cons)

lemma progressMessages_simps [simp]:
  "progressMessages [] = []"
  "progressMessages ((now, e) # pes) = (now, MessageEvent (Some e)) # progressMessages pes"
  "progressMessages (xs @ ys) = progressMessages xs @ progressMessages ys"
  by (simp_all add: progressMessages_def)

lemma inRange_not_terminal:
  "inRange e \<Longrightarrow> stage e \<noteq> ''end'' \<and> stage e \<noteq> ''error'' \<and> stage e \<noteq> ''''"
  by (drule inRange_stage) auto

lemma outcome_progressMessages:
  "\<forall>x \<in> set pes. inRange (snd x) \<Longrightarrow> outcome (progressMessages pes) = StillRunning"
proof (induction pes)
  case Nil
  show ?case by simp
next
  case (Cons p pes)
  obtain now e where p: "p = (now, e)" by (cases p)
  with Cons.prems have "inRange e" by simp
  then have "stage e \<noteq> ''end''" "stage e \<noteq> ''error''"
    using inRange_not_terminal by blast+
  with Cons p show ?case by simp
qed

lemma follows_rank:
  assumes "inRange ea" "follows ea eb" "stageRank (stage ea) = Some a"
  shows "\<exists>b. stageRank (stage eb) = Some b \<and> a \<le> b \<and> (stage eb \<noteq> stage ea \<longrightarrow> a < b)"
proof (cases "stage ea = stage eb")
  case True
  with assms(3) show ?thesis by simp
next
  case False
  with assms(2,3) show ?thesis
    by (cases "stageRank (stage eb)") (simp_all add: follows_def)
qed

lemma pipelineOrdered_rank_le:
  "pipelineOrdered (e # es) \<Longrightarrow> x \<in> set es \<Longrightarrow> stageRank (stage e) = Some a \<Longrightarrow>
     \<exists>b. stageRank (stage x) = Some b \<and> a \<le> b"
proof (induction es arbitrary: e a)
  case Nil
  then show ?case by simp
next
  case (Cons y es)
  from Cons.prems(1) have i: "inRange e" and f: "follows e y" and o: "pipelineOrdered (y # es)"
    by simp_all
  from follows_rank [OF i f Cons.prems(3)] obtain c where
    c: "stageRank (stage y) = Some c" "a \<le> c" by blast
  show ?case
  proof (cases "x = y")
    case True
    with c show ?thesis by blast
  next
    case False
    with Cons.prems(2) have "x \<in> set es" by simp
    from Cons.IH [OF o this c(1)] obtain b where "stageRank (stage x) = Some b" "c \<le> b"
      by blast
    with c(2) show ?thesis by auto
  qed
qed

lemma pipelineOrdered_append:
  "pipelineOrdered (xs @ ys) \<Longrightarrow> pipelineOrdered xs \<and> pipelineOrdered ys"
proof (induction xs rule: pipelineOrdered.induct)
  case 1
  then show ?case by simp
next
  case (2 e)
  then show ?case by (cases ys) simp_all
next
  case (3 e1 e2 es)
  then show ?case by simp
qed

lemma run_ordered_completed:
  assumes i: "i < length (subscriptions w)" "\<not> closed (eventSource (subscriptions w ! i))"
    and o: "pipelineOrdered (map snd (pes @ (now, ea) # (now', eb) # pes'))"
    and d: "stage eb \<noteq> stage ea"
  shows "stageCompleted (stage ea)
    (run rd i (progressMessages (pes @ (now, ea) # (now', eb) # pes')) w)"
proof -
  let ?two = "[(now, MessageEvent (Some ea)), (now', MessageEvent (Some eb))]"
  from o have o1: "pipelineOrdered (map snd pes @ [ea, eb] @ map snd pes')" by simp
  then have o2: "pipelineOrdered (ea # eb # map snd pes')"
    using pipelineOrdered_append [of "map snd pes" "[ea, eb] @ map snd pes'"] by simp
  from o1 have o3: "pipelineOrdered (map snd (pes @ [(now, ea), (now', eb)]))"
    using pipelineOrdered_append [of "map snd pes @ [ea, eb]" "map snd pes'"] by simp
  have "\<forall>x \<in> set (pes @ [(now, ea), (now', eb)]). inRange (snd x)"
  proof
    fix x assume "x \<in> set (pes @ [(now, ea), (now', eb)])"
    then have "snd x \<in> set (map snd (pes @ [(now, ea), (now', eb)]))" unfolding set_map by (rule imageI)
    with o3 show "inRange (snd x)" by (rule pipelineOrdered_inRange)
  qed
  then have "outcome (progressMessages (pes @ [(now, ea), (now', eb)])) = StillRunning"
    by (rule outcome_progressMessages)
  then have s: "outcome (progressMessages pes @ ?two) = StillRunning" by simp
  from o2 have ia: "inRange ea" and f: "follows ea eb" and o4: "pipelineOrdered (eb # map snd pes')"
    by simp_all
  from ia have n: "stage ea \<noteq> ''''" using inRange_not_terminal by blast
  from ia obtain a where a: "stageRank (stage ea) = Some a" by (auto simp: inRange_def)
  from follows_rank [OF ia f a] d obtain b where b: "stageRank (stage eb) = Some b" "a < b"
    by blast
  have c: "stageCompleted (stage ea) (run rd i (progressMessages pes @ ?two) w)"
    using i s n d by (rule run_two_events)
  have "list_all (\<lambda>(now, ev). otherStage (stage ea) ev) (progressMessages pes')"
    unfolding list_all_iff
  proof
    fix x assume "x \<in> set (progressMessages pes')"
    then obtain t e where x: "x = (t, MessageEvent (Some e))" "(t, e) \<in> set pes'"
      by (auto simp: progressMessages_def)
    then have "e \<in> set (map snd pes')" by force
    from pipelineOrdered_rank_le [OF o4 this b(1)] obtain c where
      "stageRank (stage e) = Some c" "b \<le> c" by blast
    with a b(2) have "stage e \<noteq> stage ea" by auto
    with x(1) show "case x of (now, ev) \<Rightarrow> otherStage (stage ea) ev" by simp
  qed
  with c have "stageCompleted (stage ea)
      (run rd i (progressMessages pes') (run rd i (progressMessages pes @ ?two) w))"
    by (rule run_keeps_completed)
  then show ?thesis by (simp add: run_append)
qed

text \<open>
  Claim C4, as the code has it. The initial stage list has the five identifiers in
  the order of the pipeline, and no event of a subscription changes the identifiers
  of the list. The \<open>onEvent\<close> callback remembers the stage of the event it receives.
  When it receives an event whose stage differs from the stage it remembers, every
  entry of the remembered stage is completed at 100 afterwards: so it is after two
  calls in a row with different stages, and after two such events at the end of any
  stream that has no terminal event. An entry that is completed at 100 stays so
  through any stream in which no progress event is of its stage. The stages move
  forward where the stream does: in a stream of progress events in the order of the
  pipeline, a stage that is followed by an event of another stage is completed at
  100 at the end of the stream, whatever follows. An event of stage \<open>error\<close>
  changes no stage.
\<close>

theorem stages_completed_on_change:
  "map stage_id INITIAL_STAGES = [''upload'', ''whisper'', ''beat'', ''ffmpeg'', ''finalize''] \<and>
   map stage_id (stages (run rd i evs w)) = map stage_id (stages w) \<and>
   (i < length (subscriptions w) \<longrightarrow>
      lastStage (subscriptions (handleGenerate_onEvent rd i now e w) ! i) = stage e) \<and>
   (lastStage (subscriptions w ! i) \<noteq> '''' \<and> stage e \<noteq> lastStage (subscriptions w ! i) \<longrightarrow>
      stageCompleted (lastStage (subscriptions w ! i)) (handleGenerate_onEvent rd i now e w)) \<and>
   (i < length (subscriptions w) \<and> stage ea \<noteq> '''' \<and> stage eb \<noteq> stage ea \<longrightarrow>
      stageCompleted (stage ea)
        (handleGenerate_onEvent rd i now' eb (handleGenerate_onEvent rd i now ea w))) \<and>
   (i < length (subscriptions w) \<and> \<not> closed (eventSource (subscriptions w ! i)) \<and>
    outcome (evs @ [(now, MessageEvent (Some ea)), (now', MessageEvent (Some eb))]) = StillRunning \<and>
    stage ea \<noteq> '''' \<and> stage eb \<noteq> stage ea \<longrightarrow>
      stageCompleted (stage ea)
        (run rd i (evs @ [(now, MessageEvent (Some ea)), (now', MessageEvent (Some eb))]) w)) \<and>
   (stageCompleted sid w \<and> list_all (\<lambda>(now, ev). otherStage sid ev) evs \<longrightarrow>
      stageCompleted sid (run rd i evs w)) \<and>
   (i < length (subscriptions w) \<and> \<not> closed (eventSource (subscriptions w ! i)) \<and>
    pipelineOrdered (map snd (pes @ (now, ea) # (now', eb) # pes')) \<and> stage eb \<noteq> stage ea \<longrightarrow>
      stageCompleted (stage ea)
        (run rd i (progressMessages (pes @ (now, ea) # (now', eb) # pes')) w)) \<and>
   (i < length (subscriptions w) \<and> \<not> closed (eventSource (subscriptions w ! i)) \<and>
    stage e = ''error'' \<longrightarrow>
      stages (deliver rd i now (MessageEvent (Some e)) w) = stages w)"
proof (intro conjI impI)
  show "map stage_id INITIAL_STAGES = [''upload'', ''whisper'', ''beat'', ''ffmpeg'', ''finalize'']"
    by (simp add: INITIAL_STAGES_def)
  show "map stage_id (stages (run rd i evs w)) = map stage_id (stages w)"
    by (rule run_stage_ids)
next
  assume "i < length (subscriptions w)"
  then show "lastStage (subscriptions (handleGenerate_onEvent rd i now e w) ! i) = stage e"
    by (rule onEvent_lastStage)
next
  assume "lastStage (subscriptions w ! i) \<noteq> '''' \<and> stage e \<noteq> lastStage (subscriptions w ! i)"
  then show "stageCompleted (lastStage (subscriptions w ! i)) (handleGenerate_onEvent rd i now e w)"
    by (intro onEvent_completes_previous) simp_all
next
  assume "i < length (subscriptions w) \<and> stage ea \<noteq> '''' \<and> stage eb \<noteq> stage ea"
  then show "stageCompleted (stage ea)
      (handleGenerate_onEvent rd i now' eb (handleGenerate_onEvent rd i now ea w))"
    by (intro onEvent_twice) simp_all
next
  assume "i < length (subscriptions w) \<and> \<not> closed (eventSource (subscriptions w ! i)) \<and>
    outcome (evs @ [(now, MessageEvent (Some ea)), (now', MessageEvent (Some eb))]) = StillRunning \<and>
    stage ea \<noteq> '''' \<and> stage eb \<noteq> stage ea"
  then show "stageCompleted (stage ea)
      (run rd i (evs @ [(now, MessageEvent (Some ea)), (now', MessageEvent (Some eb))]) w)"
    by (intro run_two_events) simp_all
next
  assume "stageCompleted sid w \<and> list_all (\<lambda>(now, ev). otherStage sid ev) evs"
  then show "stageCompleted sid (run rd i evs w)"
    by (intro run_keeps_completed) simp_all
next
  assume "i < length (subscriptions w) \<and> \<not> closed (eventSource (subscriptions w ! i)) \<and>
    pipelineOrdered (map snd (pes @ (now, ea) # (now', eb) # pes')) \<and> stage eb \<noteq> stage ea"
  then show "stageCompleted (stage ea)
      (run rd i (progressMessages (pes @ (now, ea) # (now', eb) # pes')) w)"
    by (intro run_ordered_completed) simp_all
next
  assume "i < length (subscriptions w) \<and> \<not> closed (eventSource (subscriptions w ! i)) \<and>
    stage e = ''error''"
  then show "stages (deliver rd i now (MessageEvent (Some e)) w) = stages w"
    by (intro deliver_error_stages) simp_all
qed

text \<open>
  Claim C4 as stated fails. The stages do not only move forward: after progress
  events of the stages \<open>whisper\<close>, \<open>beat\<close> and \<open>whisper\<close> again, the stage
  \<open>whisper\<close>, completed by the second event, is running again. And an event whose
  stage differs from the one seen before need not complete that one: after a
  \<open>whisper\<close> event, an event of stage \<open>error\<close> leaves \<open>whisper\<close> running.
\<close>

theorem stages_not_strictly_forward:
  "map (\<lambda>s. (stage_id s, status s, progress s)) (stages (run binary64 0
      [(sampleDate, MessageEvent (Some (sampleEvent ''whisper'' 50))),
       (sampleDate, MessageEvent (Some (sampleEvent ''beat'' 10))),
       (sampleDate, MessageEvent (Some (sampleEvent ''whisper'' 20)))] subscribedApp))
     = [(''upload'', StageCompleted, 100), (''whisper'', StageRunning, 20),
        (''beat'', StageCompleted, 100), (''ffmpeg'', StagePending, 0),
        (''finalize'', StagePending, 0)] \<and>
   map (\<lambda>s. (stage_id s, status s, progress s)) (stages (run binary64 0
      [(sampleDate, MessageEvent (Some (sampleEvent ''whisper'' 50))),
       (sampleDate, MessageEvent (Some (sampleEvent ''error'' 0)))] subscribedApp))
     = [(''upload'', StageCompleted, 100), (''whisper'', StageRunning, 50),
        (''beat'', StagePending, 0), (''ffmpeg'', StagePending, 0),
        (''finalize'', StagePending, 0)]"
  by code_simp

theorem stages_completed_on_change_witness:
  "0 < length (subscriptions subscribedApp) \<and>
   \<not> closed (eventSource (subscriptions subscribedApp ! 0)) \<and>
   lastStage (subscriptions
     (handleGenerate_onEvent binary64 0 sampleDate (sampleEvent ''whisper'' 50) subscribedApp) ! 0)
     = ''whisper'' \<and>
   stageCompleted ''whisper''
     (handleGenerate_onEvent binary64 0 sampleDate (sampleEvent ''beat'' 10)
        (handleGenerate_onEvent binary64 0 sampleDate (sampleEvent ''whisper'' 50) subscribedApp)) \<and>
   outcome ([(sampleDate, MessageEvent None)] @
      [(sampleDate, MessageEvent (Some (sampleEvent ''whisper'' 50))),
       (sampleDate, MessageEvent (Some (sampleEvent ''beat'' 10)))]) = StillRunning \<and>
   stageCompleted ''whisper'' (run binary64 0 ([(sampleDate, MessageEvent None)] @
      [(sampleDate, MessageEvent (Some (sampleEvent ''whisper'' 50))),
       (sampleDate, MessageEvent (Some (sampleEvent ''beat'' 10)))]) subscribedApp) \<and>
   stageCompleted ''upload'' subscribedApp \<and>
   list_all (\<lambda>(now, ev). otherStage ''upload'' ev)
     [(sampleDate, MessageEvent (Some (sampleEvent ''whisper'' 50))),
      (sampleDate, MessageEvent (Some (sampleEvent ''beat'' 10)))] \<and>
   stageCompleted ''upload'' (run binary64 0
     [(sampleDate, MessageEvent (Some (sampleEvent ''whisper'' 50))),
      (sampleDate, MessageEvent (Some (sampleEvent ''beat'' 10)))] subscribedApp) \<and>
   pipelineOrdered (map snd ([] @ (sampleDate, sampleEvent ''whisper'' 50)
      # (sampleDate, sampleEvent ''beat'' 10) # [(sampleDate, sampleEvent ''ffmpeg'' 0)])) \<and>
   stageCompleted ''whisper'' (run binary64 0
     (progressMessages ([] @ (sampleDate, sampleEvent ''whisper'' 50)
        # (sampleDate, sampleEvent ''beat'' 10) # [(sampleDate, sampleEvent ''ffmpeg'' 0)]))
     subscribedApp) \<and>
   stages (deliver binary64 0 sampleDate (MessageEvent (Some (sampleEvent ''error'' 0)))
     subscribedApp) = stages subscribedApp"
proof -
  let ?whisper = "sampleEvent ''whisper'' 50" and ?beat = "sampleEvent ''beat'' 10"
  let ?w1 = "handleGenerate_onEvent binary64 0 sampleDate ?whisper subscribedApp"
  let ?two = "[(sampleDate, MessageEvent (Some ?whisper)), (sampleDate, MessageEvent (Some ?beat))]"
  have i: "0 < length (subscriptions subscribedApp)"
    by (simp add: subscribedApp_def)
  have c: "\<not> closed (eventSource (subscriptions subscribedApp ! 0))"
    by (simp add: subscribedApp_def subscribeProgress_def)
  have s: "stage ?whisper = ''whisper''" "stage ?beat = ''beat''"
    "stage (sampleEvent ''error'' 0) = ''error''"
    by (simp_all add: sampleEvent_def)
  have o: "outcome ([(sampleDate, MessageEvent None)] @ ?two) = StillRunning"
    by (simp add: sampleEvent_def)
  have u: "stageCompleted ''upload'' subscribedApp \<and>
      list_all (\<lambda>(now, ev). otherStage ''upload'' ev) ?two"
    by (simp add: subscribedApp_def stageCompleted_def INITIAL_STAGES_def sampleEvent_def)
  note t = stages_completed_on_change [where rd = binary64 and i = 0 and w = subscribedApp
      and now = sampleDate and now' = sampleDate and ea = ?whisper and eb = ?beat
      and pes = "[]" and pes' = "[(sampleDate, sampleEvent ''ffmpeg'' 0)]"]
  from t [where e = ?whisper and evs = "[]" and sid = "''upload''"] i s
  have 1: "lastStage (subscriptions ?w1 ! 0) = ''whisper''"
    by simp
  from stages_completed_on_change [where rd = binary64 and i = 0 and w = ?w1
      and now = sampleDate and e = ?beat and evs = "[]" and sid = "''upload''"
      and now' = sampleDate and ea = ?whisper and eb = ?beat and pes = "[]" and pes' = "[]"] 1 s
  have 2: "stageCompleted ''whisper'' (handleGenerate_onEvent binary64 0 sampleDate ?beat ?w1)"
    by simp
  from t [where e = ?whisper and evs = "[(sampleDate, MessageEvent None)]"
      and sid = "''upload''"] i c o s
  have 3: "stageCompleted ''whisper''
      (run binary64 0 ([(sampleDate, MessageEvent None)] @ ?two) subscribedApp)"
    by simp
  from t [where e = ?whisper and evs = ?two and sid = "''upload''"] u
  have 4: "stageCompleted ''upload'' (run binary64 0 ?two subscribedApp)"
    by blast
  from t [where e = "sampleEvent ''error'' 0" and evs = "[]" and sid = "''upload''"] i c s
  have 5: "stages (deliver binary64 0 sampleDate (MessageEvent (Some (sampleEvent ''error'' 0)))
      subscribedApp) = stages subscribedApp"
    by blast
  have p: "pipelineOrdered (map snd ([] @ (sampleDate, ?whisper) # (sampleDate, ?beat)
      # [(sampleDate, sampleEvent ''ffmpeg'' 0)]))"
    by (simp add: sampleEvent_def inRange_def follows_def stageRank_def)
  from t [where e = ?whisper and evs = "[]" and sid = "''upload''"] i c p s
  have 6: "stageCompleted ''whisper'' (run binary64 0
      (progressMessages ([] @ (sampleDate, ?whisper) # (sampleDate, ?beat)
        # [(sampleDate, sampleEvent ''ffmpeg'' 0)])) subscribedApp)"
    by simp
  from i c 1 2 o 3 u 4 p 6 5 show ?thesis by blast
qed

subsection \<open>Overall progress\<close>

lemma Math_round_mono: "x \<le> y \<Longrightarrow> Math_round x \<le> Math_round y"
  by (simp add: Math_round_def floor_mono)

lemma Math_round_of_int [simp]: "Math_round (of_int n) = n"
proof -
  have "\<lfloor>of_int n + (1 / 2 :: rat)\<rfloor> = n" by linarith
  then show ?thesis by (simp add: Math_round_def)
qed

text \<open>The weights and the ranks of the four stages.\<close>

lemma weighted_whisper:
  "stageWeights ''whisper'' = Some (10, 30) \<and> stageRank ''whisper'' = Some 1"
  by (simp add: stageWeights_def stageRank_def)

lemma weighted_beat:
  "stageWeights ''beat'' = Some (30, 45) \<and> stageRank ''beat'' = Some 2"
  by (simp add: stageWeights_def stageRank_def)

lemma weighted_ffmpeg:
  "stageWeights ''ffmpeg'' = Some (45, 90) \<and> stageRank ''ffmpeg'' = Some 3"
  by (simp add: stageWeights_def stageRank_def)

lemma weighted_finalize:
  "stageWeights ''finalize'' = Some (90, 100) \<and> stageRank ''finalize'' = Some 4"
  by (simp add: stageWeights_def stageRank_def)

lemma inRange_not_special:
  "inRange e \<Longrightarrow> stage e \<noteq> ''done'' \<and> stage e \<notin> set inheritedKeys"
  by (drule inRange_stage) (auto simp: inheritedKeys_def)

lemma onEvent_overall:
  assumes "inRange e"
  shows "overallProgress (handleGenerate_onEvent rd i now e w) = stageProgress rd e"
proof -
  from assms have s: "stage e \<noteq> ''done''" "stage e \<notin> set inheritedKeys"
    using inRange_not_special by blast+
  from assms obtain mn mx where m: "stageWeights (stage e) = Some (mn, mx)"
    using inRange_stage weighted_whisper weighted_beat weighted_ffmpeg weighted_finalize
    by metis
  show ?thesis
    using s m by (simp add: handleGenerate_onEvent_def Let_def stageProgress_def)
qed

text \<open>
  The value computed for a percentage \<open>p\<close> and a range from \<open>mn\<close> to \<open>mx\<close>, with
  a rounding that keeps the order of the values that are not negative and is exact on
  the integers it meets.
\<close>

lemma weighted_in_range:
  assumes mono: "\<forall>x y. 0 \<le> x \<longrightarrow> x \<le> y \<longrightarrow> rd x \<le> rd y"
    and exact: "rd 0 = 0" "rd 1 = 1" "rd (of_int (mx - mn)) = of_int (mx - mn)"
      "rd (of_int mn) = of_int mn" "rd (of_int mx) = of_int mx"
    and range: "0 \<le> mn" "mn \<le> mx" and p: "0 \<le> p" "p \<le> 100"
  shows "mn \<le> Math_round (rd (of_int mn + rd (rd (p / 100) * of_int (mx - mn))))"
    and "Math_round (rd (of_int mn + rd (rd (p / 100) * of_int (mx - mn)))) \<le> mx"
proof -
  let ?d = "of_int (mx - mn) :: rat"
  have d: "0 \<le> ?d" using range by simp
  from p have "0 \<le> p / 100" "p / 100 \<le> 1" by simp_all
  with mono exact(1,2) have a: "0 \<le> rd (p / 100)" "rd (p / 100) \<le> 1"
    by (metis order.refl, metis)
  from a d have "0 \<le> rd (p / 100) * ?d" "rd (p / 100) * ?d \<le> ?d"
    by (simp_all add: mult_left_le_one_le)
  with mono exact(1,3) have b: "0 \<le> rd (rd (p / 100) * ?d)" "rd (rd (p / 100) * ?d) \<le> ?d"
    by (metis order.refl, metis)
  from range have m: "(0::rat) \<le> of_int mn" by simp
  from b have "of_int mn \<le> of_int mn + rd (rd (p / 100) * ?d)"
    "of_int mn + rd (rd (p / 100) * ?d) \<le> of_int mx"
    by simp_all
  with mono exact(4,5) m
  have c: "of_int mn \<le> rd (of_int mn + rd (rd (p / 100) * ?d))"
    "rd (of_int mn + rd (rd (p / 100) * ?d)) \<le> of_int mx"
    by (metis, metis order.trans)
  from Math_round_mono [OF c(1)]
  show "mn \<le> Math_round (rd (of_int mn + rd (rd (p / 100) * of_int (mx - mn))))" by simp
  from Math_round_mono [OF c(2)]
  show "Math_round (rd (of_int mn + rd (rd (p / 100) * of_int (mx - mn)))) \<le> mx" by simp
qed

lemma weighted_mono:
  assumes mono: "\<forall>x y. 0 \<le> x \<longrightarrow> x \<le> y \<longrightarrow> rd x \<le> rd y"
    and exact: "rd 0 = 0"
    and range: "0 \<le> mn" "mn \<le> mx" and p: "0 \<le> p" "p \<le> p'"
  shows "Math_round (rd (of_int mn + rd (rd (p / 100) * of_int (mx - mn))))
    \<le> Math_round (rd (of_int mn + rd (rd (p' / 100) * of_int (mx - mn))))"
proof -
  let ?d = "of_int (mx - mn) :: rat"
  have d: "0 \<le> ?d" using range by simp
  from p have "0 \<le> p / 100" "p / 100 \<le> p' / 100" by simp_all
  with mono exact have a: "0 \<le> rd (p / 100)" "rd (p / 100) \<le> rd (p' / 100)"
    by (metis order.refl, metis)
  from a d have "0 \<le> rd (p / 100) * ?d" "rd (p / 100) * ?d \<le> rd (p' / 100) * ?d"
    by (simp_all add: mult_right_mono)
  with mono exact
  have b: "0 \<le> rd (rd (p / 100) * ?d)" "rd (rd (p / 100) * ?d) \<le> rd (rd (p' / 100) * ?d)"
    by (metis order.refl, metis)
  from range b have "0 \<le> of_int mn + rd (rd (p / 100) * ?d)"
    "of_int mn + rd (rd (p / 100) * ?d) \<le> of_int mn + rd (rd (p' / 100) * ?d)"
    by simp_all
  with mono have "rd (of_int mn + rd (rd (p / 100) * ?d))
      \<le> rd (of_int mn + rd (rd (p' / 100) * ?d))"
    by metis
  then show ?thesis by (rule Math_round_mono)
qed

lemma stage_weights:
  assumes "inRange e"
  obtains mn mx a where "stageWeights (stage e) = Some (mn, mx)" "stageRank (stage e) = Some a"
    "(mn, mx, a) \<in> set [(10, 30, 1), (30, 45, 2), (45, 90, 3), (90, 100, 4)]"
proof -
  from inRange_stage [OF assms] show ?thesis
  proof (elim disjE)
    assume "stage e = ''whisper''"
    then show ?thesis using weighted_whisper that [of 10 30 1] by simp
  next
    assume "stage e = ''beat''"
    then show ?thesis using weighted_beat that [of 30 45 2] by simp
  next
    assume "stage e = ''ffmpeg''"
    then show ?thesis using weighted_ffmpeg that [of 45 90 3] by simp
  next
    assume "stage e = ''finalize''"
    then show ?thesis using weighted_finalize that [of 90 100 4] by simp
  qed
qed

lemma stageProgress_bounds:
  assumes mono: "\<forall>x y. 0 \<le> x \<longrightarrow> x \<le> y \<longrightarrow> rd x \<le> rd y"
    and exact: "\<forall>n \<in> set [0, 1, 10, 15, 20, 30, 45, 90, 100]. rd (of_int n) = of_int n"
    and e: "inRange e" "stageWeights (stage e) = Some (mn, mx)"
  shows "mn \<le> stageProgress rd e \<and> stageProgress rd e \<le> mx"
proof -
  from e(1) obtain mn' mx' a where w: "stageWeights (stage e) = Some (mn', mx')"
    "(mn', mx', a) \<in> set [(10, 30, 1), (30, 45, 2), (45, 90, 3), (90, 100, 4 :: nat)]"
    by (rule stage_weights)
  with e(2) have m: "(mn, mx) \<in> set [(10, 30), (30, 45), (45, 90), (90, 100)]" by auto
  from exact have x: "rd 0 = 0" "rd 1 = 1" by simp_all
  from exact m have y: "rd (of_int (mx - mn)) = of_int (mx - mn)" "rd (of_int mn) = of_int mn"
    "rd (of_int mx) = of_int mx"
    by auto
  from m have r: "0 \<le> mn" "mn \<le> mx" by auto
  from e(1) have p: "0 \<le> percent e" "percent e \<le> 100" by (simp_all add: inRange_def)
  from weighted_in_range [OF mono x y r p] e(2) show ?thesis
    by (simp add: stageProgress_def)
qed

lemma stageProgress_same_stage:
  assumes mono: "\<forall>x y. 0 \<le> x \<longrightarrow> x \<le> y \<longrightarrow> rd x \<le> rd y"
    and exact: "\<forall>n \<in> set [0, 1, 10, 15, 20, 30, 45, 90, 100]. rd (of_int n) = of_int n"
    and e: "inRange e1" "stage e1 = stage e2" "percent e1 \<le> percent e2"
  shows "stageProgress rd e1 \<le> stageProgress rd e2"
proof -
  from e(1) obtain mn mx a where w: "stageWeights (stage e1) = Some (mn, mx)"
    "(mn, mx, a) \<in> set [(10, 30, 1), (30, 45, 2), (45, 90, 3), (90, 100, 4 :: nat)]"
    by (rule stage_weights)
  then have r: "0 \<le> mn" "mn \<le> mx" by auto
  from exact have x: "rd 0 = 0" by simp
  from e(1) have p: "0 \<le> percent e1" by (simp add: inRange_def)
  from weighted_mono [OF mono x r p e(3)] w(1) e(2) show ?thesis
    by (simp add: stageProgress_def)
qed

lemma stageProgress_follows:
  assumes mono: "\<forall>x y. 0 \<le> x \<longrightarrow> x \<le> y \<longrightarrow> rd x \<le> rd y"
    and exact: "\<forall>n \<in> set [0, 1, 10, 15, 20, 30, 45, 90, 100]. rd (of_int n) = of_int n"
    and e: "inRange e1" "inRange e2" "follows e1 e2"
  shows "stageProgress rd e1 \<le> stageProgress rd e2"
proof (cases "stage e1 = stage e2")
  case True
  with e(3) have "percent e1 \<le> percent e2" by (simp add: follows_def)
  with mono exact e(1) True show ?thesis by (intro stageProgress_same_stage)
next
  case False
  from e(1) obtain mn1 mx1 a where w1: "stageWeights (stage e1) = Some (mn1, mx1)"
    "stageRank (stage e1) = Some a"
    "(mn1, mx1, a) \<in> set [(10, 30, 1), (30, 45, 2), (45, 90, 3), (90, 100, 4)]"
    by (rule stage_weights)
  from e(2) obtain mn2 mx2 b where w2: "stageWeights (stage e2) = Some (mn2, mx2)"
    "stageRank (stage e2) = Some b"
    "(mn2, mx2, b) \<in> set [(10, 30, 1), (30, 45, 2), (45, 90, 3), (90, 100, 4)]"
    by (rule stage_weights)
  from False e(3) w1(2) w2(2) have "a < b" by (simp add: follows_def)
  with w1(3) w2(3) have "mx1 \<le> mn2" by auto
  moreover from stageProgress_bounds [OF mono exact e(1) w1(1)]
  have "stageProgress rd e1 \<le> mx1" by simp
  moreover from stageProgress_bounds [OF mono exact e(2) w2(1)]
  have "mn2 \<le> stageProgress rd e2" by simp
  ultimately show ?thesis by linarith
qed

lemma stageProgress_at_least_10:
  assumes mono: "\<forall>x y. 0 \<le> x \<longrightarrow> x \<le> y \<longrightarrow> rd x \<le> rd y"
    and exact: "\<forall>n \<in> set [0, 1, 10, 15, 20, 30, 45, 90, 100]. rd (of_int n) = of_int n"
    and e: "inRange e"
  shows "10 \<le> stageProgress rd e"
proof -
  from e obtain mn mx a where w: "stageWeights (stage e) = Some (mn, mx)"
    "(mn, mx, a) \<in> set [(10, 30, 1), (30, 45, 2), (45, 90, 3), (90, 100, 4 :: nat)]"
    by (rule stage_weights)
  then have "10 \<le> mn" by auto
  with stageProgress_bounds [OF mono exact e w(1)] show ?thesis by linarith
qed

lemma overallTrace_ordered:
  "pipelineOrdered (map snd evs) \<Longrightarrow>
     overallTrace rd i evs w = map (stageProgress rd \<circ> snd) evs"
proof (induction evs arbitrary: w)
  case Nil
  show ?case by simp
next
  case (Cons x evs)
  obtain now e where x: "x = (now, e)" by (cases x)
  from Cons.prems x have "inRange e" "pipelineOrdered (map snd evs)"
    using pipelineOrdered_Cons [of e "map snd evs"] by simp_all
  with Cons.IH x show ?case by (simp add: onEvent_overall)
qed

lemma sorted_stageProgress:
  assumes mono: "\<forall>x y. 0 \<le> x \<longrightarrow> x \<le> y \<longrightarrow> rd x \<le> rd y"
    and exact: "\<forall>n \<in> set [0, 1, 10, 15, 20, 30, 45, 90, 100]. rd (of_int n) = of_int n"
  shows "pipelineOrdered es \<Longrightarrow> sorted (map (stageProgress rd) es)"
proof (induction es rule: pipelineOrdered.induct)
  case 1
  show ?case by simp
next
  case (2 e)
  show ?case by simp
next
  case (3 e1 e2 es)
  from "3.prems" have a: "inRange e1" "follows e1 e2" "pipelineOrdered (e2 # es)" by simp_all
  then have b: "inRange e2" using pipelineOrdered_Cons by blast
  from mono exact a(1) b a(2) have le: "stageProgress rd e1 \<le> stageProgress rd e2"
    by (rule stageProgress_follows)
  from "3.IH" a have s: "sorted (map (stageProgress rd) (e2 # es))" by simp
  with le show ?case by auto
qed

text \<open>
  Claim C3. The callback computes in doubles: each operation is the exact one
  followed by the rounding \<open>rd\<close>. Let the rounding keep the order of the values that
  are not negative and be exact on zero, on one and on the integers of the weight
  table, as the rounding of IEEE 754 is. After the upload the overall progress is 10.
  Through a sequence of progress events in the order of the pipeline, with
  percentages from 0 to 100 that do not decrease within a stage, the overall progress
  that the \<open>onEvent\<close> callback derives never decreases, starting from any value up
  to 10.
\<close>

theorem overall_progress_monotone:
  "\<forall>x y. 0 \<le> x \<longrightarrow> x \<le> y \<longrightarrow> rd x \<le> rd y \<Longrightarrow>
   \<forall>n \<in> set [0, 1, 10, 15, 20, 30, 45, 90, 100]. rd (of_int n) = of_int n \<Longrightarrow>
   pipelineOrdered (map snd evs) \<Longrightarrow> overallProgress w \<le> 10 \<Longrightarrow>
     sorted (overallProgress w # overallTrace rd i evs w)"
proof -
  assume mono: "\<forall>x y. 0 \<le> x \<longrightarrow> x \<le> y \<longrightarrow> rd x \<le> rd y"
    and exact: "\<forall>n \<in> set [0, 1, 10, 15, 20, 30, 45, 90, 100]. rd (of_int n) = of_int n"
    and o: "pipelineOrdered (map snd evs)" and w: "overallProgress w \<le> 10"
  have t: "overallTrace rd i evs w = map (stageProgress rd) (map snd evs)"
    using overallTrace_ordered [OF o] by simp
  have s: "sorted (map (stageProgress rd) (map snd evs))"
    using mono exact o by (rule sorted_stageProgress)
  have "\<forall>x \<in> set (map snd evs). overallProgress w \<le> stageProgress rd x"
  proof
    fix x assume "x \<in> set (map snd evs)"
    with o have "inRange x" by (rule pipelineOrdered_inRange)
    with mono exact have "10 \<le> stageProgress rd x" by (rule stageProgress_at_least_10)
    with w show "overallProgress w \<le> stageProgress rd x" by simp
  qed
  with s show ?thesis unfolding t by simp
qed

text \<open>
  At a beat event of 3.333333333333333 percent the rounding decides the value: the
  doubles give 30.5 and the overall progress 31, where exact arithmetic would give 30.
\<close>

lemma overall_progress_rounds_in_doubles:
  "stageProgress binary64
     \<lparr>stage = ''beat'', message = ''working'',
      percent = 7505999378950826 / 2251799813685248\<rparr> = 31"
  by code_simp

theorem overall_progress_monotone_witness:
  "pipelineOrdered (map snd (map (Pair sampleDate)
      [sampleEvent ''whisper'' 0, sampleEvent ''whisper'' 50, sampleEvent ''beat'' 10,
       sampleEvent ''ffmpeg'' 100, sampleEvent ''finalize'' 30])) \<and>
   overallProgress subscribedApp \<le> 10 \<and>
   sorted (overallProgress subscribedApp # overallTrace binary64 0 (map (Pair sampleDate)
      [sampleEvent ''whisper'' 0, sampleEvent ''whisper'' 50, sampleEvent ''beat'' 10,
       sampleEvent ''ffmpeg'' 100, sampleEvent ''finalize'' 30]) subscribedApp)"
proof -
  let ?evs = "map (Pair sampleDate)
      [sampleEvent ''whisper'' 0, sampleEvent ''whisper'' 50, sampleEvent ''beat'' 10,
       sampleEvent ''ffmpeg'' 100, sampleEvent ''finalize'' 30]"
  have m: "\<forall>x y. 0 \<le> x \<longrightarrow> x \<le> y \<longrightarrow> binary64 x \<le> binary64 y"
    using binary64_mono by blast
  have x: "\<forall>n \<in> set [0, 1, 10, 15, 20, 30, 45, 90, 100]. binary64 (of_int n) = of_int n"
    by (rule binary64_exact)
  have o: "pipelineOrdered (map snd ?evs)"
    by (simp add: sampleEvent_def inRange_def follows_def stageRank_def)
  have w: "overallProgress subscribedApp \<le> 10"
    by (simp add: subscribedApp_def)
  from o w overall_progress_monotone [OF m x o w, of 0] show ?thesis by blast
qed

subsection \<open>Failure of a run\<close>

lemma recorded_error:
  "stage d = ''error'' \<Longrightarrow>
     consume recordEvent recordDone recordError (MessageEvent (Some d) # rest)
       (subscribeProgress taskId, tr)
     = (close (subscribeProgress taskId), tr @ [OnError (message d)])"
  by (simp add: consume_Cons dispatchEvent_terminal consume_closed close_def
      subscribeProgress_def recordError_def)

text \<open>
  Claim C6. When an event of stage \<open>error\<close> reaches an open subscription of the
  application, the source is closed, the process status is \<open>error\<close>, the log grows by
  exactly one entry, of type error, that carries the message of the event, and the
  stages, the overall progress and the download address stay as they were; whatever
  the stream holds after it changes nothing. Observed through recording callbacks,
  the only invocation from the event on is one \<open>onError\<close> with the message.
\<close>

theorem error_event_is_terminal:
  "i < length (subscriptions w) \<Longrightarrow> \<not> closed (eventSource (subscriptions w ! i)) \<Longrightarrow>
   stage d = ''error'' \<Longrightarrow>
     closed (eventSource (subscriptions (deliver rd i now (MessageEvent (Some d)) w) ! i)) \<and>
     processStatus (deliver rd i now (MessageEvent (Some d)) w) = Error \<and>
     logs (deliver rd i now (MessageEvent (Some d)) w) =
       logs w @ [\<lparr>timestamp = formatTime now, log_message = msg_processing_failed @ message d,
                 log_type = LogError\<rparr>] \<and>
     stages (deliver rd i now (MessageEvent (Some d)) w) = stages w \<and>
     overallProgress (deliver rd i now (MessageEvent (Some d)) w) = overallProgress w \<and>
     downloadUrl (deliver rd i now (MessageEvent (Some d)) w) = downloadUrl w \<and>
     run rd i evs (deliver rd i now (MessageEvent (Some d)) w) = deliver rd i now (MessageEvent (Some d)) w \<and>
     snd (consume recordEvent recordDone recordError (MessageEvent (Some d) # rest)
            (subscribeProgress taskId, tr)) = tr @ [OnError (message d)]"
proof -
  assume a: "i < length (subscriptions w)" "\<not> closed (eventSource (subscriptions w ! i))"
    "stage d = ''error''"
  have i: "i < length (subscriptions (handleGenerate_onError now (message d) w))"
    using a(1) by simp
  show ?thesis
    unfolding deliver_error_event [OF a] recorded_error [OF a(3)]
    using i by (simp add: run_after_unsubscribe)
qed

theorem error_event_is_terminal_witness:
  "0 < length (subscriptions subscribedApp) \<and>
   \<not> closed (eventSource (subscriptions subscribedApp ! 0)) \<and>
   stage (sampleEvent ''error'' 0) = ''error'' \<and>
   closed (eventSource (subscriptions
     (deliver binary64 0 sampleDate (MessageEvent (Some (sampleEvent ''error'' 0)))
        subscribedApp) ! 0)) \<and>
   processStatus
     (deliver binary64 0 sampleDate (MessageEvent (Some (sampleEvent ''error'' 0))) subscribedApp)
     = Error \<and>
   run binary64 0 [(sampleDate, MessageEvent (Some (sampleEvent ''end'' 100)))]
       (deliver binary64 0 sampleDate (MessageEvent (Some (sampleEvent ''error'' 0))) subscribedApp)
     = deliver binary64 0 sampleDate (MessageEvent (Some (sampleEvent ''error'' 0))) subscribedApp"
proof -
  have a: "0 < length (subscriptions subscribedApp)"
    by (simp add: subscribedApp_def)
  have b: "\<not> closed (eventSource (subscriptions subscribedApp ! 0))"
    by (simp add: subscribedApp_def subscribeProgress_def)
  have c: "stage (sampleEvent ''error'' 0) = ''error''"
    by (simp add: sampleEvent_def)
  note t = error_event_is_terminal [OF a b c, where rd = binary64 and now = sampleDate
      and evs = "[(sampleDate, MessageEvent (Some (sampleEvent ''end'' 100)))]"]
  from a b c t show ?thesis by blast
qed

subsection \<open>The download address\<close>

lemma run_outcome:
  "i < length (subscriptions w) \<Longrightarrow> \<not> closed (eventSource (subscriptions w ! i)) \<Longrightarrow>
   downloadUrl w = None \<Longrightarrow>
     downloadUrl (run rd i evs w) =
       (if outcome evs = Done then Some (getDownloadUrl (sub_taskId (subscriptions w ! i)))
        else None) \<and>
     (outcome evs = Done \<longrightarrow> processStatus (run rd i evs w) = Completed) \<and>
     (outcome evs = Failed \<longrightarrow> processStatus (run rd i evs w) = Error)"
proof (induction evs arbitrary: w)
  case Nil
  then show ?case by simp
next
  case (Cons x evs)
  obtain now ev where x: "x = (now, ev)" by (cases x)
  show ?case
  proof (cases ev rule: terminal.cases)
    case 1
    with Cons.prems x show ?thesis
      by (simp add: deliver_connection_error run_after_unsubscribe)
  next
    case 2
    with Cons.prems have "deliver rd i now ev w = w"
      by (simp add: deliver_not_terminal)
    with Cons x 2 show ?thesis by simp
  next
    case (3 d)
    show ?thesis
    proof (cases "stage d = ''end''")
      case True
      with Cons.prems x 3 show ?thesis
        by (simp add: deliver_end_event run_after_unsubscribe)
    next
      case False
      note ne = this
      show ?thesis
      proof (cases "stage d = ''error''")
        case True
        with Cons.prems x 3 ne show ?thesis
          by (simp add: deliver_error_event run_after_unsubscribe)
      next
        case False
        with ne 3 Cons.prems have d: "deliver rd i now ev w = handleGenerate_onEvent rd i now d w"
          by (simp add: deliver_not_terminal)
        have "downloadUrl (run rd i evs (handleGenerate_onEvent rd i now d w)) =
            (if outcome evs = Done
             then Some (getDownloadUrl
                    (sub_taskId (subscriptions (handleGenerate_onEvent rd i now d w) ! i)))
             else None) \<and>
          (outcome evs = Done \<longrightarrow>
             processStatus (run rd i evs (handleGenerate_onEvent rd i now d w)) = Completed) \<and>
          (outcome evs = Failed \<longrightarrow>
             processStatus (run rd i evs (handleGenerate_onEvent rd i now d w)) = Error)"
          using Cons.prems by (intro Cons.IH) simp_all
        with Cons.prems x 3 ne False d show ?thesis by simp
      qed
    qed
  qed
qed

lemma handleGenerate_valid:
  "videos w \<noteq> [] \<Longrightarrow> audio w \<noteq> None \<Longrightarrow>
     \<exists>w1 request. handleGenerate now w = (w1, Some request) \<and> downloadUrl w1 = None"
  by (auto simp: handleGenerate_def Let_def resetProgress_def)

lemma handleGenerate_uploaded_Inl:
  "handleGenerate_uploaded now now' s (Inl err) w = (catchBlock now err w, None)"
  by (simp add: handleGenerate_uploaded_def)

lemma handleGenerate_uploaded_Inr:
  "\<exists>w2 config. handleGenerate_uploaded now now' s (Inr r) w = (w2, Some config) \<and>
     downloadUrl w2 = downloadUrl w"
  by (simp add: handleGenerate_uploaded_def Let_def)

lemma handleGenerate_started_Inl:
  "handleGenerate_started now (Inl err) w = catchBlock now err w"
  by (simp add: handleGenerate_started_def)

lemma handleGenerate_started_Inr:
  "length (subscriptions w) < length (subscriptions (handleGenerate_started now (Inr t) w)) \<and>
   \<not> closed (eventSource
        (subscriptions (handleGenerate_started now (Inr t) w) ! length (subscriptions w))) \<and>
   sub_taskId (subscriptions (handleGenerate_started now (Inr t) w) ! length (subscriptions w)) = t \<and>
   downloadUrl (handleGenerate_started now (Inr t) w) = downloadUrl w"
  by (simp add: handleGenerate_started_def Let_def subscribeProgress_def)

lemma generate_downloadUrl:
  assumes "videos w \<noteq> []" "audio w \<noteq> None"
  shows "downloadUrl (generate rd now1 now2 now3 now4 uploaded started evs w) =
      (case (uploaded, started) of
         (Inr r, Inr t) \<Rightarrow> if outcome evs = Done then Some (getDownloadUrl t) else None
       | _ \<Rightarrow> None)"
proof -
  from handleGenerate_valid [OF assms] obtain w1 request
    where h: "handleGenerate now1 w = (w1, Some request)" "downloadUrl w1 = None"
    by blast
  show ?thesis
  proof (cases uploaded)
    case (Inl err)
    with h show ?thesis
      by (simp add: generate_def handleGenerate_uploaded_Inl)
  next
    case (Inr r)
    from handleGenerate_uploaded_Inr [of now2 now3 "settings w" r w1] obtain w2 config
      where u: "handleGenerate_uploaded now2 now3 (settings w) (Inr r) w1 = (w2, Some config)"
        "downloadUrl w2 = downloadUrl w1"
      by blast
    show ?thesis
    proof (cases started)
      case (Inl err)
      with h u Inr show ?thesis
        by (simp add: generate_def handleGenerate_started_Inl)
    next
      case started: (Inr t)
      let ?w3 = "handleGenerate_started now4 (Inr t) w2"
      let ?i = "length (subscriptions w2)"
      from handleGenerate_started_Inr [of w2 now4 t] h u
      have s: "?i < length (subscriptions ?w3)"
        "\<not> closed (eventSource (subscriptions ?w3 ! ?i))"
        "sub_taskId (subscriptions ?w3 ! ?i) = t" "downloadUrl ?w3 = None"
        by simp_all
      from run_outcome [OF s(1) s(2) s(4), where rd = rd and evs = evs] s(3)
      have "downloadUrl (run rd ?i evs ?w3) =
          (if outcome evs = Done then Some (getDownloadUrl t) else None)"
        by simp
      with h u Inr started show ?thesis
        by (simp add: generate_def)
    qed
  qed
qed

text \<open>
  Claim C7. The download address of a task is the base address of the API, then
  \<open>/api/download/\<close>, then the task identifier. An invocation of \<open>handleGenerate\<close>
  that passes validation leaves a download address exactly when both requests
  succeed and the stream of its subscription ends with an \<open>end\<close> event, the path
  of \<open>onDone\<close>; the address is then that of the new task. A failed upload, a failed
  task creation, an \<open>error\<close> event, a broken connection and a stream that has not
  ended all leave no address. Within a subscription that starts with no address,
  the same holds of its stream alone, and a failed stream leaves the status
  \<open>error\<close>.
\<close>

theorem download_only_after_completion:
  "getDownloadUrl taskId = ''http://localhost:8000/api/download/'' @ taskId \<and>
   (videos w \<noteq> [] \<and> audio w \<noteq> None \<longrightarrow>
      downloadUrl (generate rd now1 now2 now3 now4 uploaded started evs w) =
        (case (uploaded, started) of
           (Inr r, Inr t) \<Rightarrow> if outcome evs = Done then Some (getDownloadUrl t) else None
         | _ \<Rightarrow> None)) \<and>
   (i < length (subscriptions w) \<and> \<not> closed (eventSource (subscriptions w ! i)) \<and>
    downloadUrl w = None \<longrightarrow>
      downloadUrl (run rd i evs w) =
        (if outcome evs = Done then Some (getDownloadUrl (sub_taskId (subscriptions w ! i)))
         else None) \<and>
      (outcome evs = Done \<longrightarrow> processStatus (run rd i evs w) = Completed) \<and>
      (outcome evs = Failed \<longrightarrow> processStatus (run rd i evs w) = Error))"
proof (intro conjI impI)
  show "getDownloadUrl taskId = ''http://localhost:8000/api/download/'' @ taskId"
    by (simp add: getDownloadUrl_def API_BASE_def)
next
  assume "videos w \<noteq> [] \<and> audio w \<noteq> None"
  then show "downloadUrl (generate rd now1 now2 now3 now4 uploaded started evs w) =
        (case (uploaded, started) of
           (Inr r, Inr t) \<Rightarrow> if outcome evs = Done then Some (getDownloadUrl t) else None
         | _ \<Rightarrow> None)"
    by (intro generate_downloadUrl) simp_all
next
  assume a: "i < length (subscriptions w) \<and> \<not> closed (eventSource (subscriptions w ! i)) \<and>
    downloadUrl w = None"
  then have r: "downloadUrl (run rd i evs w) =
        (if outcome evs = Done then Some (getDownloadUrl (sub_taskId (subscriptions w ! i)))
         else None) \<and>
      (outcome evs = Done \<longrightarrow> processStatus (run rd i evs w) = Completed) \<and>
      (outcome evs = Failed \<longrightarrow> processStatus (run rd i evs w) = Error)"
    by (intro run_outcome) simp_all
  from r show "downloadUrl (run rd i evs w) =
        (if outcome evs = Done then Some (getDownloadUrl (sub_taskId (subscriptions w ! i)))
         else None)" by (rule conjunct1)
  { assume "outcome evs = Done"
    with r show "processStatus (run rd i evs w) = Completed" by simp }
  { assume "outcome evs = Failed"
    with r show "processStatus (run rd i evs w) = Error" by simp }
qed

theorem download_only_after_completion_witness:
  "videos completedApp \<noteq> [] \<and> audio completedApp \<noteq> None \<and>
   downloadUrl (generate binary64 sampleDate sampleDate sampleDate sampleDate
       (Inr \<lparr>video_paths = [''v1'', ''v2''], audio_path = Some ''a1'', srt_path = None\<rparr>)
       (Inr ''t1'')
       [(sampleDate, MessageEvent (Some (sampleEvent ''whisper'' 50))),
        (sampleDate, MessageEvent (Some (sampleEvent ''end'' 100)))] completedApp)
     = Some ''http://localhost:8000/api/download/t1'' \<and>
   0 < length (subscriptions subscribedApp) \<and>
   \<not> closed (eventSource (subscriptions subscribedApp ! 0)) \<and>
   downloadUrl subscribedApp = None \<and>
   downloadUrl (run binary64 0
       [(sampleDate, MessageEvent (Some (sampleEvent ''whisper'' 50))),
        (sampleDate, MessageEvent (Some (sampleEvent ''error'' 0)))] subscribedApp) = None \<and>
   processStatus (run binary64 0
       [(sampleDate, MessageEvent (Some (sampleEvent ''whisper'' 50))),
        (sampleDate, MessageEvent (Some (sampleEvent ''error'' 0)))] subscribedApp) = Error"
proof -
  let ?ok = "[(sampleDate, MessageEvent (Some (sampleEvent ''whisper'' 50))),
        (sampleDate, MessageEvent (Some (sampleEvent ''end'' 100)))]"
  let ?bad = "[(sampleDate, MessageEvent (Some (sampleEvent ''whisper'' 50))),
        (sampleDate, MessageEvent (Some (sampleEvent ''error'' 0)))]"
  let ?up = "Inr \<lparr>video_paths = [''v1'', ''v2''], audio_path = Some ''a1'', srt_path = None\<rparr>
    :: string + UploadResult"
  have a: "videos completedApp \<noteq> [] \<and> audio completedApp \<noteq> None"
    by (simp add: completedApp_def)
  have b: "0 < length (subscriptions subscribedApp) \<and>
      \<not> closed (eventSource (subscriptions subscribedApp ! 0)) \<and>
      downloadUrl subscribedApp = None"
    by (simp add: subscribedApp_def subscribeProgress_def)
  have ok: "outcome ?ok = Done" by (simp add: sampleEvent_def)
  have bad: "outcome ?bad = Failed" by (simp add: sampleEvent_def)
  note t1 = download_only_after_completion [of "''t1''" completedApp binary64 sampleDate
      sampleDate sampleDate sampleDate ?up "Inr ''t1''" ?ok 0]
  note t2 = download_only_after_completion [of "''t1''" subscribedApp binary64 sampleDate
      sampleDate sampleDate sampleDate ?up "Inr ''t1''" ?bad 0]
  from t1 a ok have 1: "downloadUrl (generate binary64 sampleDate sampleDate sampleDate sampleDate
      ?up (Inr ''t1'') ?ok completedApp) = Some ''http://localhost:8000/api/download/t1''"
    by simp
  from t2 b bad have 2: "downloadUrl (run binary64 0 ?bad subscribedApp) = None \<and>
      processStatus (run binary64 0 ?bad subscribedApp) = Error"
    by simp
  from a b 1 2 show ?thesis by blast
qed

end
